theory Spec2Isabelle
  imports Main "HOL-Library.AList"
begin

section \<open>Node descriptions\<close>

text \<open>
  A description (the source's \<open>vNode\<close>) is a JavaScript string, an object
  \<open>{type, props, children}\<close>, or \<open>null\<close>/\<open>undefined\<close>. The \<open>type\<close> property is
  optional in the model so that an element description without a tag name can be written
  down. The second and third fields of \<open>VElem\<close> are the values of the source's
  \<open>vnode.props || {}\<close> and \<open>vnode.children || []\<close>: the source reads both properties only
  through these defaults (or, at lines 83, 84 and 97 of diff.js, under a loop that runs only
  when the property is present), so an absent property and an empty one are the same input.
  The entries of \<open>props\<close> are listed in the enumeration order of the object.
\<close>

datatype vnode =
    VNull
  | VText string
  | VElem "string option" "(string \<times> string) list" "vnode list"

text \<open>\<open>typeof v === "string"\<close>\<close>

fun is_string :: "vnode \<Rightarrow> bool" where
  "is_string (VText t) = True"
| "is_string v = False"

text \<open>
  The property reads \<open>v.type\<close>, \<open>v.props || {}\<close> and \<open>v.children || []\<close> on a non-null
  value. A string has none of the three properties, so the reads give \<open>undefined\<close> and the
  defaults apply. (On \<open>null\<close> a property read throws; the source reaches these reads only
  after its null tests, except in \<open>createTree\<close>, where the fault is modelled.)
\<close>

fun js_type :: "vnode \<Rightarrow> string option" where
  "js_type (VElem ty ps cs) = ty"
| "js_type v = None"

fun js_props :: "vnode \<Rightarrow> (string \<times> string) list" where
  "js_props (VElem ty ps cs) = ps"
| "js_props v = []"

fun js_children :: "vnode \<Rightarrow> vnode list" where
  "js_children (VElem ty ps cs) = cs"
| "js_children v = []"

text \<open>
  The own property names of \<open>Object.prototype\<close>. The operator \<open>key in obj\<close> walks the
  prototype chain, so on an object literal it also answers true for these names.
\<close>

definition object_prototype_keys :: "string list" where
  "object_prototype_keys =
     [''constructor'', ''toString'', ''toLocaleString'', ''valueOf'', ''hasOwnProperty'',
      ''isPrototypeOf'', ''propertyIsEnumerable'', ''__proto__'', ''__defineGetter__'',
      ''__defineSetter__'', ''__lookupGetter__'', ''__lookupSetter__'']"

text \<open>\<open>key in obj\<close> for an object literal \<open>obj\<close> with the given own entries.\<close>

definition js_in :: "string \<Rightarrow> (string \<times> string) list \<Rightarrow> bool" where
  "js_in key obj = (key \<in> fst ` set obj \<or> key \<in> set object_prototype_keys)"

text \<open>
  The value of \<open>obj[key]\<close>: the own string, an inherited built-in (a function or object,
  identified by its name), or \<open>undefined\<close>.
\<close>

datatype js_value = JString string | JBuiltin string | JUndefined

definition js_get :: "(string \<times> string) list \<Rightarrow> string \<Rightarrow> js_value" where
  "js_get obj key =
     (case map_of obj key of
        Some v \<Rightarrow> JString v
      | None \<Rightarrow> if key \<in> set object_prototype_keys then JBuiltin key else JUndefined)"

text \<open>
  The conversion of an optional string to a DOM string at a host call: \<open>undefined\<close>
  becomes the text \<open>undefined\<close>.
\<close>

fun to_DOMString :: "string option \<Rightarrow> string" where
  "to_DOMString (Some t) = t"
| "to_DOMString None = ''undefined''"

section \<open>The live tree\<close>

text \<open>
  The rendering surface is a store of nodes. A live node is the index of its cell; a
  reference that may be \<open>null\<close> or \<open>undefined\<close> is a \<open>nat option\<close>. Every node carries its
  parent reference; an element carries its tag, its attributes (in the order they were
  first set) and the references of its children. Every call of a mutating primitive that
  returns is recorded in \<open>log\<close>, with the arguments of the call.
\<close>

datatype node =
    TextNode "nat option" string
  | ElementNode "nat option" string "(string \<times> string) list" "nat list"

fun parentNode :: "node \<Rightarrow> nat option" where
  "parentNode (TextNode p t) = p"
| "parentNode (ElementNode p tg as ks) = p"

fun childNodes :: "node \<Rightarrow> nat list" where
  "childNodes (TextNode p t) = []"
| "childNodes (ElementNode p tg as ks) = ks"

fun attributes :: "node \<Rightarrow> (string \<times> string) list" where
  "attributes (TextNode p t) = []"
| "attributes (ElementNode p tg as ks) = as"

fun with_parent :: "nat option \<Rightarrow> node \<Rightarrow> node" where
  "with_parent q (TextNode p t) = TextNode q t"
| "with_parent q (ElementNode p tg as ks) = ElementNode q tg as ks"

fun with_children :: "nat list \<Rightarrow> node \<Rightarrow> node" where
  "with_children js (TextNode p t) = TextNode p t"
| "with_children js (ElementNode p tg as ks) = ElementNode p tg as js"

datatype mutation =
    SetAttribute nat string string
  | RemoveAttribute nat string
  | SetTextContent nat string
  | AppendChild nat nat
  | ReplaceChild nat nat nat
  | RemoveChild nat nat

record dom =
  heap :: "node list"
  log :: "mutation list"

datatype fault = TypeError | HierarchyRequestError | NotFoundError | InvalidCharacterError

type_synonym 'a js = "dom \<Rightarrow> (fault + 'a) \<times> dom"

definition js_return :: "'a \<Rightarrow> 'a js" where
  "js_return x s = (Inr x, s)"

definition js_throw :: "fault \<Rightarrow> 'a js" where
  "js_throw e s = (Inl e, s)"

text \<open>Sequencing: a fault stops the computation and keeps the store as it is then.\<close>

definition js_bind :: "'a js \<Rightarrow> ('a \<Rightarrow> 'b js) \<Rightarrow> 'b js" where
  "js_bind m f s = (case m s of (Inl e, s') \<Rightarrow> (Inl e, s') | (Inr x, s') \<Rightarrow> f x s')"

definition lookup :: "dom \<Rightarrow> nat \<Rightarrow> node option" where
  "lookup s n = (if n < length (heap s) then Some (heap s ! n) else None)"

subsection \<open>The host document\<close>

text \<open>
  What the document does with a name belongs to the host, not to the source:
  \<open>createElement\<close> and \<open>setAttribute\<close> throw an \<open>InvalidCharacterError\<close> on a name that the
  host does not accept (the empty name, or one with a space in it), and a document of type
  text/html stores tag names and attribute names in ASCII lower case, where an XML document
  stores them as written. The host is a parameter of the model: the element names and the
  attribute names that it accepts, and the name under which it stores a given name.
\<close>

record host =
  element_name_ok :: "string \<Rightarrow> bool"
  attribute_name_ok :: "string \<Rightarrow> bool"
  fold_name :: "string \<Rightarrow> string"

text \<open>
  Two hosts, for the concrete inputs. Both accept the names of the XML production \<open>Name\<close>:
  a letter, \<open>_\<close> or \<open>:\<close>, followed by letters, digits, \<open>-\<close>, \<open>.\<close>, \<open>_\<close> and \<open>:\<close>, where a
  character outside ASCII (a byte with the top bit set) counts as a letter. The first
  stores a name as written, the second in ASCII lower case.
\<close>

definition name_start_char :: "char \<Rightarrow> bool" where
  "name_start_char c =
     (c \<in> set ''abcdefghijklmnopqrstuvwxyzABCDEFGHIJKLMNOPQRSTUVWXYZ_:'' \<or> digit7 c)"

definition name_char :: "char \<Rightarrow> bool" where
  "name_char c = (name_start_char c \<or> c \<in> set ''0123456789-.'')"

fun xml_name :: "string \<Rightarrow> bool" where
  "xml_name [] = False"
| "xml_name (c # cs) = (name_start_char c \<and> list_all name_char cs)"

definition ascii_lower :: "char \<Rightarrow> char" where
  "ascii_lower c =
     (if c \<in> set ''ABCDEFGHIJKLMNOPQRSTUVWXYZ''
      then Char (digit0 c) (digit1 c) (digit2 c) (digit3 c) (digit4 c) True (digit6 c) (digit7 c)
      else c)"

definition xml_document :: host where
  "xml_document =
     \<lparr>element_name_ok = xml_name, attribute_name_ok = xml_name, fold_name = (\<lambda>name. name)\<rparr>"

definition html_document :: host where
  "html_document =
     \<lparr>element_name_ok = xml_name, attribute_name_ok = xml_name, fold_name = map ascii_lower\<rparr>"

subsection \<open>Primitives of the rendering surface\<close>

definition createTextNode :: "string \<Rightarrow> nat js" where
  "createTextNode t s = (Inr (length (heap s)), s\<lparr>heap := heap s @ [TextNode None t]\<rparr>)"

text \<open>
  \<open>document.createElement(tag)\<close>: a name that the host refuses throws; otherwise the new
  element has the name as the host stores it.
\<close>

definition createElement :: "host \<Rightarrow> string \<Rightarrow> nat js" where
  "createElement H tg s =
     (if element_name_ok H tg
      then (Inr (length (heap s)),
            s\<lparr>heap := heap s @ [ElementNode None (fold_name H tg) [] []]\<rparr>)
      else (Inl InvalidCharacterError, s))"

text \<open>
  \<open>node.setAttribute(key, value)\<close>: a text node has no such method, and a call on
  \<open>null\<close> or \<open>undefined\<close> throws. On an element a name that the host refuses throws;
  otherwise the value is set under the name as the host stores it.
\<close>

definition setAttribute :: "host \<Rightarrow> nat option \<Rightarrow> string \<Rightarrow> string \<Rightarrow> unit js" where
  "setAttribute H dn k v s =
     (case dn of
        None \<Rightarrow> (Inl TypeError, s)
      | Some n \<Rightarrow>
          (case lookup s n of
             Some (ElementNode p tg as ks) \<Rightarrow>
               (if attribute_name_ok H k then
                  (Inr (), s\<lparr>heap := (heap s)[n := ElementNode p tg
                                                   (AList.update (fold_name H k) v as) ks],
                             log := log s @ [SetAttribute n k v]\<rparr>)
                else (Inl InvalidCharacterError, s))
           | _ \<Rightarrow> (Inl TypeError, s)))"

text \<open>
  \<open>node.removeAttribute(key)\<close>: removes the attribute stored under the name as the host
  stores it, if there is one; the name is not checked.
\<close>

definition removeAttribute :: "host \<Rightarrow> nat option \<Rightarrow> string \<Rightarrow> unit js" where
  "removeAttribute H dn k s =
     (case dn of
        None \<Rightarrow> (Inl TypeError, s)
      | Some n \<Rightarrow>
          (case lookup s n of
             Some (ElementNode p tg as ks) \<Rightarrow>
               (Inr (), s\<lparr>heap := (heap s)[n := ElementNode p tg
                                                (AList.delete (fold_name H k) as) ks],
                          log := log s @ [RemoveAttribute n k]\<rparr>)
           | _ \<Rightarrow> (Inl TypeError, s)))"

text \<open>
  Taking a node out of the child list of its parent, if it has one. The primitives that
  insert a node do this first. (The host also refuses to insert a node under one of its own
  descendants; the source only ever inserts a root that \<open>createTree\<close> has just built, so
  that check is not modelled.)
\<close>

definition detach :: "nat \<Rightarrow> node list \<Rightarrow> node list" where
  "detach c h =
     (if c < length h then
        (case parentNode (h ! c) of
           None \<Rightarrow> h
         | Some q \<Rightarrow>
             (if q < length h
              then (h[q := with_children (remove1 c (childNodes (h ! q))) (h ! q)])
                     [c := with_parent None (h ! c)]
              else h[c := with_parent None (h ! c)]))
      else h)"

text \<open>\<open>parent.appendChild(child)\<close>: only an element takes children.\<close>

definition appendChild :: "nat option \<Rightarrow> nat \<Rightarrow> unit js" where
  "appendChild dn c s =
     (case dn of
        None \<Rightarrow> (Inl TypeError, s)
      | Some p \<Rightarrow>
          (case lookup s p of
             None \<Rightarrow> (Inl TypeError, s)
           | Some (TextNode q t) \<Rightarrow> (Inl HierarchyRequestError, s)
           | Some (ElementNode q tg as ks) \<Rightarrow>
               (if c < length (heap s) then
                  (let h = detach c (heap s);
                       h' = (h[p := with_children (childNodes (h ! p) @ [c]) (h ! p)])
                              [c := with_parent (Some p) (h ! c)]
                   in (Inr (), s\<lparr>heap := h', log := log s @ [AppendChild p c]\<rparr>))
                else (Inl TypeError, s))))"

text \<open>\<open>parent.removeChild(child)\<close>: the child must be a child of that parent.\<close>

definition removeChild :: "nat option \<Rightarrow> nat option \<Rightarrow> unit js" where
  "removeChild dn dc s =
     (case dn of
        None \<Rightarrow> (Inl TypeError, s)
      | Some p \<Rightarrow>
          (case dc of
             None \<Rightarrow> (Inl TypeError, s)
           | Some c \<Rightarrow>
               (case lookup s p of
                  None \<Rightarrow> (Inl TypeError, s)
                | Some np \<Rightarrow>
                    (if c \<in> set (childNodes np) \<and> c < length (heap s) then
                       (let h = (heap s)[p := with_children (remove1 c (childNodes np)) np];
                            h' = h[c := with_parent None (h ! c)]
                        in (Inr (), s\<lparr>heap := h', log := log s @ [RemoveChild p c]\<rparr>))
                     else (Inl NotFoundError, s)))))"

text \<open>\<open>parent.replaceChild(newChild, oldChild)\<close>: the new child takes the old one's place.\<close>

definition replaceChild :: "nat option \<Rightarrow> nat \<Rightarrow> nat option \<Rightarrow> unit js" where
  "replaceChild dn m dc s =
     (case dn of
        None \<Rightarrow> (Inl TypeError, s)
      | Some p \<Rightarrow>
          (case dc of
             None \<Rightarrow> (Inl TypeError, s)
           | Some c \<Rightarrow>
               (case lookup s p of
                  None \<Rightarrow> (Inl TypeError, s)
                | Some (TextNode q t) \<Rightarrow> (Inl HierarchyRequestError, s)
                | Some (ElementNode q tg as ks) \<Rightarrow>
                    (if m < length (heap s) \<and> c < length (heap s) then
                       (let h = detach m (heap s) in
                        if c \<in> set (childNodes (h ! p)) then
                          (let h1 = h[p := with_children
                                             (map (\<lambda>k. if k = c then m else k) (childNodes (h ! p)))
                                             (h ! p)];
                               h2 = h1[c := with_parent None (h1 ! c)];
                               h3 = h2[m := with_parent (Some p) (h2 ! m)]
                           in (Inr (), s\<lparr>heap := h3, log := log s @ [ReplaceChild p m c]\<rparr>))
                        else (Inl NotFoundError, s))
                     else (Inl TypeError, s)))))"

text \<open>
  The assignment \<open>node.textContent = t\<close>: on a text node it sets the text; on an
  element it removes every child and, for a non-empty text, inserts one new text node.
\<close>

definition set_textContent :: "nat option \<Rightarrow> string \<Rightarrow> unit js" where
  "set_textContent dn t s =
     (case dn of
        None \<Rightarrow> (Inl TypeError, s)
      | Some n \<Rightarrow>
          (case lookup s n of
             None \<Rightarrow> (Inl TypeError, s)
           | Some (TextNode p u) \<Rightarrow>
               (Inr (), s\<lparr>heap := (heap s)[n := TextNode p t],
                          log := log s @ [SetTextContent n t]\<rparr>)
           | Some (ElementNode p tg as ks) \<Rightarrow>
               (let h = fold (\<lambda>k h. h[k := with_parent None (h ! k)]) ks (heap s);
                    h' = (if t = [] then h[n := ElementNode p tg as []]
                          else (h @ [TextNode (Some n) t])[n := ElementNode p tg as [length h]])
                in (Inr (), s\<lparr>heap := h', log := log s @ [SetTextContent n t]\<rparr>))))"

text \<open>The reads \<open>node.parentNode\<close>, \<open>node.childNodes[i]\<close>, \<open>node.childNodes.length\<close> and
  \<open>node.lastChild\<close>.\<close>

definition get_parentNode :: "nat option \<Rightarrow> (nat option) js" where
  "get_parentNode dn s =
     (case dn of
        None \<Rightarrow> (Inl TypeError, s)
      | Some n \<Rightarrow>
          (case lookup s n of
             None \<Rightarrow> (Inl TypeError, s)
           | Some nd \<Rightarrow> (Inr (parentNode nd), s)))"

definition get_childNode :: "nat option \<Rightarrow> nat \<Rightarrow> (nat option) js" where
  "get_childNode dn i s =
     (case dn of
        None \<Rightarrow> (Inl TypeError, s)
      | Some n \<Rightarrow>
          (case lookup s n of
             None \<Rightarrow> (Inl TypeError, s)
           | Some nd \<Rightarrow>
               (Inr (if i < length (childNodes nd) then Some (childNodes nd ! i) else None), s)))"

definition get_childCount :: "nat option \<Rightarrow> nat js" where
  "get_childCount dn s =
     (case dn of
        None \<Rightarrow> (Inl TypeError, s)
      | Some n \<Rightarrow>
          (case lookup s n of
             None \<Rightarrow> (Inl TypeError, s)
           | Some nd \<Rightarrow> (Inr (length (childNodes nd)), s)))"

definition get_lastChild :: "nat option \<Rightarrow> (nat option) js" where
  "get_lastChild dn s =
     (case dn of
        None \<Rightarrow> (Inl TypeError, s)
      | Some n \<Rightarrow>
          (case lookup s n of
             None \<Rightarrow> (Inl TypeError, s)
           | Some nd \<Rightarrow>
               (Inr (if childNodes nd = [] then None else Some (last (childNodes nd))), s)))"

section \<open>createTree\<close>

text \<open>Lines 17 to 19: one \<open>setAttribute\<close> for each entry of \<open>Object.entries(props)\<close>.\<close>

fun set_attributes :: "host \<Rightarrow> nat \<Rightarrow> (string \<times> string) list \<Rightarrow> unit js" where
  "set_attributes H el [] = js_return ()"
| "set_attributes H el ((k, v) # kvs) =
     js_bind (setAttribute H (Some el) k v) (\<lambda>_. set_attributes H el kvs)"

text \<open>
  \<open>createTree\<close> (lines 9 to 27). On \<open>null\<close> the test \<open>typeof vnode === "string"\<close> is
  false and the read \<open>vnode.type\<close> throws. \<open>append_children\<close> is the \<open>forEach\<close> of lines
  22 to 24.
\<close>

fun createTree :: "host \<Rightarrow> vnode \<Rightarrow> nat js"
  and append_children :: "host \<Rightarrow> nat \<Rightarrow> vnode list \<Rightarrow> unit js" where
  "createTree H VNull = js_throw TypeError"
| "createTree H (VText t) = createTextNode t"
| "createTree H (VElem ty ps cs) =
     js_bind (createElement H (to_DOMString ty)) (\<lambda>el.
     js_bind (set_attributes H el ps) (\<lambda>_.
     js_bind (append_children H el cs) (\<lambda>_.
     js_return el)))"
| "append_children H el [] = js_return ()"
| "append_children H el (c # cs) =
     js_bind (createTree H c) (\<lambda>m.
     js_bind (appendChild (Some el) m) (\<lambda>_.
     append_children H el cs))"

section \<open>diff\<close>

text \<open>Lines 76 to 80: the keys of the old properties that are not \<open>in\<close> the new ones.\<close>

fun remove_old_attributes ::
  "host \<Rightarrow> nat option \<Rightarrow> (string \<times> string) list \<Rightarrow> string list \<Rightarrow> unit js" where
  "remove_old_attributes H dn nps [] = js_return ()"
| "remove_old_attributes H dn nps (key # keys) =
     js_bind (if \<not> js_in key nps then removeAttribute H dn key else js_return ())
       (\<lambda>_. remove_old_attributes H dn nps keys)"

text \<open>
  Lines 82 to 86: the entries of the new properties whose key is not \<open>in\<close> the old ones
  or whose old value is not the same string. The loop variable ranges over the own keys
  of \<open>newVNode.props\<close>, so \<open>newVNode.props[key]\<close> is the value of the entry.
\<close>

fun set_new_attributes ::
  "host \<Rightarrow> nat option \<Rightarrow> (string \<times> string) list \<Rightarrow> (string \<times> string) list \<Rightarrow> unit js" where
  "set_new_attributes H dn ops [] = js_return ()"
| "set_new_attributes H dn ops ((key, v) # kvs) =
     js_bind (if \<not> js_in key ops \<or> js_get ops key \<noteq> JString v
              then setAttribute H dn key v else js_return ())
       (\<lambda>_. set_new_attributes H dn ops kvs)"

fun js_string :: "vnode \<Rightarrow> string" where
  "js_string (VText t) = t"
| "js_string v = []"

text \<open>
  The chain of cases of lines 40 to 87. The result says whether the source has returned
  (\<open>True\<close>) or goes on to the code after the chain (\<open>False\<close>): two equal strings leave the
  first \<open>if\<close> without returning, and the attribute update of case 5 does not return.
\<close>

definition diff_cases :: "host \<Rightarrow> vnode \<Rightarrow> vnode \<Rightarrow> nat option \<Rightarrow> bool js" where
  "diff_cases H old new dn =
     (if is_string old \<and> is_string new then
        (if old \<noteq> new
         then js_bind (set_textContent dn (js_string new)) (\<lambda>_. js_return True)
         else js_return False)
      else if old = VNull then
        js_bind (createTree H new) (\<lambda>m.
        js_bind (appendChild dn m) (\<lambda>_. js_return True))
      else if new = VNull then
        js_bind (get_parentNode dn) (\<lambda>p.
        js_bind (removeChild p dn) (\<lambda>_. js_return True))
      else if js_type old \<noteq> js_type new then
        js_bind (createTree H new) (\<lambda>m.
        js_bind (get_parentNode dn) (\<lambda>p.
        js_bind (replaceChild p m dn) (\<lambda>_. js_return True)))
      else if js_type old = js_type new then
        js_bind (remove_old_attributes H dn (js_props new) (map fst (js_props old))) (\<lambda>_.
        js_bind (set_new_attributes H dn (js_props old) (js_props new)) (\<lambda>_. js_return False))
      else js_return False)"

text \<open>Lines 91 to 94.\<close>

definition minLength :: "vnode \<Rightarrow> vnode \<Rightarrow> nat" where
  "minLength old new = min (length (js_children old)) (length (js_children new))"

text \<open>Lines 105 to 110, over the new children from index \<open>oldLen\<close> on.\<close>

fun append_new_children :: "host \<Rightarrow> nat option \<Rightarrow> vnode list \<Rightarrow> unit js" where
  "append_new_children H dn [] = js_return ()"
| "append_new_children H dn (c # cs) =
     js_bind (createTree H c) (\<lambda>m.
     js_bind (appendChild dn m) (\<lambda>_.
     append_new_children H dn cs))"

text \<open>
  Lines 114 to 116: the \<open>while\<close> loop that removes the last child as long as the live
  node has more than \<open>newLen\<close> children. Every round that does not fault shortens the
  child list, which is the termination argument.
\<close>

definition child_count :: "nat option \<Rightarrow> dom \<Rightarrow> nat" where
  "child_count dn s =
     (case dn of
        None \<Rightarrow> 0
      | Some n \<Rightarrow> (case lookup s n of None \<Rightarrow> 0 | Some nd \<Rightarrow> length (childNodes nd)))"

function remove_extra_children :: "nat option \<Rightarrow> nat \<Rightarrow> unit js" where
  "remove_extra_children dn newLen s =
     (case get_childCount dn s of
        (Inl e, s1) \<Rightarrow> (Inl e, s1)
      | (Inr cnt, s1) \<Rightarrow>
          (if cnt > newLen then
             (case get_lastChild dn s1 of
                (Inl e, s2) \<Rightarrow> (Inl e, s2)
              | (Inr lc, s2) \<Rightarrow>
                  (case removeChild dn lc s2 of
                     (Inl e, s3) \<Rightarrow> (Inl e, s3)
                   | (Inr u, s3) \<Rightarrow> remove_extra_children dn newLen s3))
           else (Inr (), s1)))"
  by pat_completeness auto

lemma removeChild_child_count:
  assumes "removeChild dn lc s = (Inr u, s')"
  shows "child_count dn s' < child_count dn s"
proof -
  from assms obtain p c np where dn: "dn = Some p" and lc: "lc = Some c"
    and np: "lookup s p = Some np" and c: "c \<in> set (childNodes np)" "c < length (heap s)"
    by (auto simp: removeChild_def split: option.splits if_splits)
  from np have p: "p < length (heap s)" and hp: "heap s ! p = np"
    by (auto simp: lookup_def split: if_splits)
  let ?h = "(heap s)[p := with_children (remove1 c (childNodes np)) np]"
  from assms dn lc np c have s': "heap s' = ?h[c := with_parent None (?h ! c)]"
    by (auto simp: removeChild_def Let_def)
  have ch: "childNodes np \<noteq> [] \<Longrightarrow> childNodes (with_children js np) = js" for js
    by (cases np) auto
  have wp: "childNodes (with_parent q nd) = childNodes nd" for q nd
    by (cases nd) auto
  from c(1) have ne: "childNodes np \<noteq> []" by auto
  have "childNodes (heap s' ! p) = remove1 c (childNodes np)"
    using p ne by (cases "c = p") (simp_all add: s' ch wp)
  moreover have "length (remove1 c (childNodes np)) < length (childNodes np)"
    using c(1) length_pos_if_in_set [OF c(1)] by (simp add: length_remove1)
  ultimately show ?thesis
    using p hp np by (simp add: child_count_def dn lookup_def s')
qed

termination remove_extra_children
proof (relation "measure (\<lambda>(dn, newLen, s). child_count dn s)")
  show "wf (measure (\<lambda>(dn, newLen, s). child_count dn s))" by simp
next
  fix dn newLen s x1 s1 cnt x2 s2 lc x3 s3 u
  assume a: "(x1, s1) = get_childCount dn s" "(x2, s2) = get_lastChild dn s1"
    "(x3, s3) = removeChild dn lc s2" "x3 = Inr u"
  from a(1) have "s1 = s"
    by (auto simp: get_childCount_def split: option.splits)
  moreover from a(2) have "s2 = s1"
    by (auto simp: get_lastChild_def split: option.splits)
  moreover from a(3,4) have "child_count dn s3 < child_count dn s2"
    using removeChild_child_count [of dn lc s2 u s3] by simp
  ultimately show "((dn, newLen, s3), (dn, newLen, s)) \<in> measure (\<lambda>(dn, newLen, s). child_count dn s)"
    by simp
qed

text \<open>Lines 100 to 118.\<close>

definition diff_tail :: "host \<Rightarrow> vnode \<Rightarrow> vnode \<Rightarrow> nat option \<Rightarrow> unit js" where
  "diff_tail H old new dn =
     (let oldLen = length (js_children old); newLen = length (js_children new) in
      js_bind (if newLen > oldLen
               then append_new_children H dn (drop oldLen (js_children new))
               else js_return ())
        (\<lambda>_. if oldLen > newLen then remove_extra_children dn newLen else js_return ()))"

text \<open>
  \<open>diff\<close> (lines 35 to 121) and its loop over the common positions (lines 96 to 98).
  The live child at position \<open>i\<close> is read when the loop reaches \<open>i\<close>; a position with no
  live child gives \<open>undefined\<close>, which is passed on.
\<close>

function diff :: "host \<Rightarrow> vnode \<Rightarrow> vnode \<Rightarrow> nat option \<Rightarrow> unit js"
  and diff_loop :: "host \<Rightarrow> nat \<Rightarrow> vnode \<Rightarrow> vnode \<Rightarrow> nat option \<Rightarrow> unit js" where
  "diff H old new dn =
     js_bind (diff_cases H old new dn) (\<lambda>returned.
       if returned then js_return ()
       else js_bind (diff_loop H 0 old new dn) (\<lambda>_. diff_tail H old new dn))"
| "diff_loop H i old new dn =
     (if i < minLength old new then
        js_bind (get_childNode dn i) (\<lambda>k.
        js_bind (diff H (js_children old ! i) (js_children new ! i) k) (\<lambda>_.
        diff_loop H (Suc i) old new dn))
      else js_return ())"
  by pat_completeness auto

lemma size_js_children: "i < length (js_children v) \<Longrightarrow> size (js_children v ! i) < size v"
proof (cases v)
  case (VElem ty ps cs)
  assume "i < length (js_children v)"
  with VElem have "cs ! i \<in> set cs" by simp
  then have "size (cs ! i) < Suc (size_list size cs)"
    by (simp add: less_Suc_eq_le size_list_estimation')
  with VElem show ?thesis by simp
qed simp_all

termination diff
proof (relation "measures [
    (\<lambda>x. case x of Inl (H, old, new, dn) \<Rightarrow> size old + size new
                 | Inr (H, i, old, new, dn) \<Rightarrow> size old + size new),
    (\<lambda>x. case x of Inl (H, old, new, dn) \<Rightarrow> 1 | Inr (H, i, old, new, dn) \<Rightarrow> 0),
    (\<lambda>x. case x of Inl (H, old, new, dn) \<Rightarrow> 0
                 | Inr (H, i, old, new, dn) \<Rightarrow> minLength old new - i)]")
  show "wf (measures [
    (\<lambda>x. case x of Inl (H, old, new, dn) \<Rightarrow> size old + size new
                 | Inr (H, i, old, new, dn) \<Rightarrow> size old + size new),
    (\<lambda>x. case x of Inl (H, old, new, dn) \<Rightarrow> 1 | Inr (H, i, old, new, dn) \<Rightarrow> 0),
    (\<lambda>x. case x of Inl (H, old, new, dn) \<Rightarrow> 0
                 | Inr (H, i, old, new, dn) \<Rightarrow> minLength old new - i)])"
    by simp
next
  fix i old new
  assume "i < minLength old new"
  then have "size (js_children old ! i) < size old" "size (js_children new ! i) < size new"
    by (simp_all add: minLength_def size_js_children)
  then show "\<And>H dn x. (Inl (H, js_children old ! i, js_children new ! i, x), Inr (H, i, old, new, dn)) \<in> measures [
    (\<lambda>x. case x of Inl (H, old, new, dn) \<Rightarrow> size old + size new
                 | Inr (H, i, old, new, dn) \<Rightarrow> size old + size new),
    (\<lambda>x. case x of Inl (H, old, new, dn) \<Rightarrow> 1 | Inr (H, i, old, new, dn) \<Rightarrow> 0),
    (\<lambda>x. case x of Inl (H, old, new, dn) \<Rightarrow> 0
                 | Inr (H, i, old, new, dn) \<Rightarrow> minLength old new - i)]"
    by simp
qed auto

section \<open>Live nodes and the descriptions they render\<close>

text \<open>
  A well-formed description, as the data model has it: a text, or an element with a tag
  name, attribute names that are unique, and well-formed children (no \<open>null\<close> among them).
\<close>

fun wf_vnode :: "vnode \<Rightarrow> bool" where
  "wf_vnode VNull = False"
| "wf_vnode (VText t) = True"
| "wf_vnode (VElem ty ps cs) = (ty \<noteq> None \<and> distinct (map fst ps) \<and> list_all wf_vnode cs)"

text \<open>
  The descriptions that the host \<open>H\<close> takes: no \<open>null\<close> in them, and every tag name and
  every attribute name is one that the host accepts. The tag name is the one that reaches
  the host, so for a description without a tag name it is the text \<open>undefined\<close>.
\<close>

fun host_accepts :: "host \<Rightarrow> vnode \<Rightarrow> bool" where
  "host_accepts H VNull = False"
| "host_accepts H (VText t) = True"
| "host_accepts H (VElem ty ps cs) =
     (element_name_ok H (to_DOMString ty) \<and> list_all (\<lambda>(k, v). attribute_name_ok H k) ps \<and>
      list_all (host_accepts H) cs)"

text \<open>
  The attribute names of each element of the description stay apart in the host: no two
  of them are stored under the same name (as \<open>Class\<close> and \<open>class\<close> are in a document of
  type text/html).
\<close>

fun names_apart :: "host \<Rightarrow> vnode \<Rightarrow> bool" where
  "names_apart H (VElem ty ps cs) =
     (distinct (map (\<lambda>(k, v). fold_name H k) ps) \<and> list_all (names_apart H) cs)"
| "names_apart H v = True"

text \<open>
  The attributes that an element of the host has for a mapping of the description: each
  entry under the name as the host stores it, with its value as written; where the host
  stores two names as one, the entry that comes later in the mapping stands.
\<close>

definition stored_attributes :: "host \<Rightarrow> (string \<times> string) list \<Rightarrow> (string \<times> string) list" where
  "stored_attributes H ps = AList.clearjunk (rev (map (\<lambda>(k, v). (fold_name H k, v)) ps))"

text \<open>
  \<open>corresponds a H h par n d\<close>: in the store \<open>h\<close> of the host \<open>H\<close> the live node \<open>n\<close>, with
  parent reference \<open>par\<close>, is what the description \<open>d\<close> describes: a text node with that
  text, or an element with that tag, as the host stores it, and as many children as \<open>d\<close>,
  in the same order, each of which corresponds to the child description at its position.
  With \<open>a\<close> true the attributes are compared as well: the element has exactly the attributes
  of \<open>d\<close>, as the host stores them (\<open>renders\<close>); with \<open>a\<close> false only texts, tags and child
  lists are (\<open>shaped\<close>).
\<close>

fun corresponds :: "bool \<Rightarrow> host \<Rightarrow> node list \<Rightarrow> nat option \<Rightarrow> nat \<Rightarrow> vnode \<Rightarrow> bool" where
  "corresponds a H h par n VNull = False"
| "corresponds a H h par n (VText t) = (n < length h \<and> h ! n = TextNode par t)"
| "corresponds a H h par n (VElem ty ps cs) =
     (n < length h \<and>
      (case h ! n of
         TextNode q t \<Rightarrow> False
       | ElementNode q tg as ks \<Rightarrow>
           q = par \<and> tg = fold_name H (to_DOMString ty) \<and>
           (a \<longrightarrow> set as = set (stored_attributes H ps) \<and> distinct (map fst as)) \<and>
           list_all2 (corresponds a H h (Some n)) ks cs))"

abbreviation renders :: "host \<Rightarrow> node list \<Rightarrow> nat option \<Rightarrow> nat \<Rightarrow> vnode \<Rightarrow> bool" where
  "renders \<equiv> corresponds True"

abbreviation shaped :: "host \<Rightarrow> node list \<Rightarrow> nat option \<Rightarrow> nat \<Rightarrow> vnode \<Rightarrow> bool" where
  "shaped \<equiv> corresponds False"

text \<open>The nodes of the live subtree at \<open>n\<close>, in document order, as far as \<open>d\<close> describes it.\<close>

function nodes_of :: "node list \<Rightarrow> nat \<Rightarrow> vnode \<Rightarrow> nat list" where
  "nodes_of h n (VElem ty ps cs) =
     n # concat (map (\<lambda>(k, c). nodes_of h k c) (zip (childNodes (h ! n)) cs))"
| "nodes_of h n VNull = [n]"
| "nodes_of h n (VText t) = [n]"
  by pat_completeness auto
termination
proof (relation "measure (\<lambda>(h, n, v). size v)")
  fix h :: "node list" and n :: nat and ty :: "string option" and ps :: "(string \<times> string) list"
    and cs :: "vnode list" and x :: "nat \<times> vnode" and k :: nat and c :: vnode
  assume "x \<in> set (zip (childNodes (h ! n)) cs)" "(k, c) = x"
  then have "c \<in> set cs" by (auto dest: set_zip_rightD)
  then have "size c < Suc (size_list size cs)"
    by (simp add: less_Suc_eq_le size_list_estimation')
  then show "((h, k, c), (h, n, VElem ty ps cs)) \<in> measure (\<lambda>(h, n, v). size v)" by simp
qed simp

text \<open>Every cell of \<open>h\<close> outside \<open>A\<close> is the same in \<open>h'\<close>, which may have more cells.\<close>

definition unchanged_outside :: "nat set \<Rightarrow> node list \<Rightarrow> node list \<Rightarrow> bool" where
  "unchanged_outside A h h' =
     (length h \<le> length h' \<and> (\<forall>i<length h. i \<notin> A \<longrightarrow> h' ! i = h ! i))"

text \<open>No attribute name of the description is a property name of \<open>Object.prototype\<close>.\<close>

fun plain_names :: "vnode \<Rightarrow> bool" where
  "plain_names (VElem ty ps cs) =
     (list_all (\<lambda>(k, v). k \<notin> set object_prototype_keys) ps \<and> list_all plain_names cs)"
| "plain_names v = True"

text \<open>
  \<open>rerendered a h h' par n old new\<close>: the step from store \<open>h\<close> to store \<open>h'\<close> has turned
  the live subtree at \<open>n\<close> from one that corresponds to \<open>old\<close> into one that corresponds to
  \<open>new\<close>: its nodes are distinct, each is a node of the old subtree or a new cell, and no cell
  outside the old subtree has changed.
\<close>

definition rerendered :: "bool \<Rightarrow> host \<Rightarrow> node list \<Rightarrow> node list \<Rightarrow> nat option \<Rightarrow> nat \<Rightarrow> vnode \<Rightarrow> vnode \<Rightarrow> bool" where
  "rerendered a H h h' par n old new =
     (corresponds a H h' par n new \<and> distinct (nodes_of h' n new) \<and>
      set (nodes_of h' n new) \<subseteq> set (nodes_of h n old) \<union> {length h..<length h'} \<and>
      unchanged_outside (set (nodes_of h n old)) h h')"

text \<open>
  Two descriptions that \<open>diff\<close> reconciles in place: two texts, or two elements with the
  same \<open>type\<close>.
\<close>

definition same_kind :: "vnode \<Rightarrow> vnode \<Rightarrow> bool" where
  "same_kind old new =
     (is_string old \<and> is_string new \<or>
      \<not> is_string old \<and> \<not> is_string new \<and> js_type old = js_type new)"

declare diff.simps [simp del] diff_loop.simps [simp del] remove_extra_children.simps [simp del]

section \<open>Evaluation on concrete inputs\<close>

lemmas prim_defs = js_bind_def js_return_def js_throw_def lookup_def createTextNode_def
  xml_document_def html_document_def name_start_char_def name_char_def ascii_lower_def
  stored_attributes_def
  createElement_def setAttribute_def removeAttribute_def detach_def appendChild_def
  removeChild_def replaceChild_def set_textContent_def get_parentNode_def get_childNode_def
  get_childCount_def get_lastChild_def diff_cases_def diff_tail_def minLength_def js_in_def
  js_get_def object_prototype_keys_def diff.simps diff_loop.simps remove_extra_children.simps

section \<open>Frames\<close>

lemma unchanged_outside_refl: "unchanged_outside A h h"
  by (simp add: unchanged_outside_def)

lemma unchanged_outside_trans:
  "unchanged_outside A h h' \<Longrightarrow> unchanged_outside B h' h'' \<Longrightarrow> unchanged_outside (A \<union> B) h h''"
  by (auto simp: unchanged_outside_def)

lemma unchanged_outside_mono:
  "unchanged_outside A h h' \<Longrightarrow> A \<subseteq> B \<Longrightarrow> unchanged_outside B h h'"
  by (auto simp: unchanged_outside_def)

lemma nodes_of_hd: "\<exists>ms. nodes_of h n d = n # ms"
  by (cases d) simp_all

lemma renders_root: "corresponds a H h par n d \<Longrightarrow> n < length h \<and> parentNode (h ! n) = par"
  by (cases d) (auto split: node.splits)

lemma renders_ElemE:
  assumes "corresponds a H h par n (VElem ty ps cs)"
  obtains as ks where "n < length h" "h ! n = ElementNode par (fold_name H (to_DOMString ty)) as ks"
    "a \<longrightarrow> set as = set (stored_attributes H ps) \<and> distinct (map fst as)" "list_all2 (corresponds a H h (Some n)) ks cs"
  using assms by (auto split: node.splits)

lemma renders_bound: "corresponds a H h par n d \<Longrightarrow> m \<in> set (nodes_of h n d) \<Longrightarrow> m < length h"
proof (induction a H h par n d arbitrary: m rule: corresponds.induct)
  case (3 a H h par n ty ps cs)
  from "3.prems"(1) obtain as ks where n: "n < length h"
    and hn: "h ! n = ElementNode par (fold_name H (to_DOMString ty)) as ks"
    and all2: "list_all2 (corresponds a H h (Some n)) ks cs"
    by (rule renders_ElemE)
  show ?case
  proof (cases "m = n")
    case True
    with n show ?thesis by simp
  next
    case False
    with "3.prems"(2) hn obtain k c where kc: "(k, c) \<in> set (zip ks cs)"
      and m: "m \<in> set (nodes_of h k c)"
      by auto
    from kc all2 have "corresponds a H h (Some n) k c"
      by (auto simp: list_all2_iff)
    moreover from kc have "k \<in> set ks" "c \<in> set cs"
      by (auto dest: set_zip_leftD set_zip_rightD)
    ultimately show ?thesis
      using "3.IH" [OF hn _ _ _ m] by blast
  qed
qed simp_all

lemma renders_frame:
  "corresponds a H h par n d \<Longrightarrow> length h \<le> length h' \<Longrightarrow>
   (\<forall>m \<in> set (nodes_of h n d). h' ! m = h ! m) \<Longrightarrow>
   corresponds a H h' par n d \<and> nodes_of h' n d = nodes_of h n d"
proof (induction a H h par n d rule: corresponds.induct)
  case (3 a H h par n ty ps cs)
  from "3.prems"(1) obtain as ks where n: "n < length h"
    and hn: "h ! n = ElementNode par (fold_name H (to_DOMString ty)) as ks"
    and as: "a \<longrightarrow> set as = set (stored_attributes H ps) \<and> distinct (map fst as)"
    and all2: "list_all2 (corresponds a H h (Some n)) ks cs"
    by (rule renders_ElemE)
  from "3.prems"(3) have h'n: "h' ! n = h ! n" by simp
  have kid: "corresponds a H h' (Some n) k c \<and> nodes_of h' k c = nodes_of h k c"
    if kc: "(k, c) \<in> set (zip ks cs)" for k c
  proof -
    from kc all2 have r: "corresponds a H h (Some n) k c"
      by (auto simp: list_all2_iff)
    from kc have mem: "k \<in> set ks" "c \<in> set cs"
      by (auto dest: set_zip_leftD set_zip_rightD)
    have "\<forall>m \<in> set (nodes_of h k c). h' ! m = h ! m"
      using "3.prems"(3) kc hn by auto
    then show ?thesis
      using "3.IH" [OF hn mem r "3.prems"(2)] by blast
  qed
  have "list_all2 (corresponds a H h' (Some n)) ks cs"
    using all2 kid by (auto simp: list_all2_iff)
  moreover have meq: "map (\<lambda>(k, c). nodes_of h' k c) (zip ks cs) = map (\<lambda>(k, c). nodes_of h k c) (zip ks cs)"
    using kid by (intro map_cong) auto
  ultimately show ?case
    using n hn h'n as "3.prems"(2) by (simp add: meq)
qed simp_all

lemma renders_reparent_frame:
  assumes r: "corresponds a H h par n d" and len: "length h \<le> length h'"
    and root: "h' ! n = with_parent q (h ! n)"
    and rest: "\<forall>m \<in> set (nodes_of h n d). m \<noteq> n \<longrightarrow> h' ! m = h ! m"
    and dist: "distinct (nodes_of h n d)"
  shows "corresponds a H h' q n d \<and> nodes_of h' n d = nodes_of h n d"
proof (cases d)
  case VNull
  with r show ?thesis by simp
next
  case (VText t)
  with r root len show ?thesis by auto
next
  case (VElem ty ps cs)
  from r [unfolded VElem] obtain as ks where n: "n < length h"
    and hn: "h ! n = ElementNode par (fold_name H (to_DOMString ty)) as ks"
    and as: "a \<longrightarrow> set as = set (stored_attributes H ps) \<and> distinct (map fst as)"
    and all2: "list_all2 (corresponds a H h (Some n)) ks cs"
    by (rule renders_ElemE)
  have kid: "corresponds a H h' (Some n) k c \<and> nodes_of h' k c = nodes_of h k c"
    if kc: "(k, c) \<in> set (zip ks cs)" for k c
  proof -
    from kc all2 have rk: "corresponds a H h (Some n) k c"
      by (auto simp: list_all2_iff)
    have sub: "set (nodes_of h k c) \<subseteq> set (concat (map (\<lambda>(k, c). nodes_of h k c) (zip ks cs)))"
      using kc by auto
    have "n \<notin> set (nodes_of h k c)"
      using dist sub by (auto simp: VElem hn)
    moreover have "set (nodes_of h k c) \<subseteq> set (nodes_of h n d)"
      using sub by (auto simp: VElem hn)
    ultimately have "\<forall>m \<in> set (nodes_of h k c). h' ! m = h ! m"
      using rest by (metis subsetD)
    with rk len show ?thesis by (rule renders_frame)
  qed
  have "list_all2 (corresponds a H h' (Some n)) ks cs"
    using all2 kid by (auto simp: list_all2_iff)
  moreover have meq: "map (\<lambda>(k, c). nodes_of h' k c) (zip ks cs) = map (\<lambda>(k, c). nodes_of h k c) (zip ks cs)"
    using kid by (intro map_cong) auto
  ultimately show ?thesis
    using n hn root as len by (simp add: VElem meq)
qed

section \<open>Correctness of createTree\<close>

lemma map_add_upd_front: "m(x \<mapsto> v) ++ M = m ++ ([x \<mapsto> v] ++ M)"
  by (rule ext) (simp add: map_add_def split: option.splits)

lemma map_of_fold_set:
  "map_of (fold (\<lambda>(k, v). AList.update (f k) v) ps al) =
     map_of al ++ map_of (rev (map (\<lambda>(k, v). (f k, v)) ps))"
proof (induction ps arbitrary: al)
  case Nil
  then show ?case by simp
next
  case (Cons p ps)
  obtain k v where p: "p = (k, v)" by (cases p)
  have "fold (\<lambda>(k, v). AList.update (f k) v) (p # ps) al =
      fold (\<lambda>(k, v). AList.update (f k) v) ps (AList.update (f k) v al)"
    by (simp add: p)
  then have "map_of (fold (\<lambda>(k, v). AList.update (f k) v) (p # ps) al) =
      map_of (AList.update (f k) v al) ++ map_of (rev (map (\<lambda>(k, v). (f k, v)) ps))"
    by (simp only: Cons.IH)
  also have "\<dots> = (map_of al)(f k \<mapsto> v) ++ map_of (rev (map (\<lambda>(k, v). (f k, v)) ps))"
    by (simp only: update_conv')
  also have "\<dots> = map_of al ++ ([f k \<mapsto> v] ++ map_of (rev (map (\<lambda>(k, v). (f k, v)) ps)))"
    by (rule map_add_upd_front)
  also have "[f k \<mapsto> v] ++ map_of (rev (map (\<lambda>(k, v). (f k, v)) ps)) =
      map_of (rev (map (\<lambda>(k, v). (f k, v)) (p # ps)))"
    by (simp add: p)
  finally show ?case .
qed

lemma distinct_fold_set:
  "distinct (map fst al) \<Longrightarrow>
   distinct (map fst (fold (\<lambda>(k, v). AList.update (f k) v) ps al))"
  by (induction ps arbitrary: al) (auto simp: distinct_update)

lemma fold_set_stored:
  "set (fold (\<lambda>(k, v). AList.update (fold_name H k) v) ps []) = set (stored_attributes H ps)"
  "distinct (map fst (fold (\<lambda>(k, v). AList.update (fold_name H k) v) ps []))"
proof -
  show d: "distinct (map fst (fold (\<lambda>(k, v). AList.update (fold_name H k) v) ps []))"
    by (rule distinct_fold_set) simp
  have "map_of (fold (\<lambda>(k, v). AList.update (fold_name H k) v) ps []) =
      map_of (stored_attributes H ps)"
    by (simp add: map_of_fold_set stored_attributes_def map_of_clearjunk)
  moreover have "distinct (map fst (stored_attributes H ps))"
    by (simp add: stored_attributes_def)
  ultimately show "set (fold (\<lambda>(k, v). AList.update (fold_name H k) v) ps []) =
      set (stored_attributes H ps)"
    using d by (simp add: map_of_inject_set)
qed

lemma stored_attributes_apart:
  assumes "distinct (map (\<lambda>(k, v). fold_name H k) ps)"
  shows "set (stored_attributes H ps) = set (map (\<lambda>(k, v). (fold_name H k, v)) ps)"
proof -
  have e: "map fst (map (\<lambda>(k, v). (fold_name H k, v)) ps) = map (\<lambda>(k, v). fold_name H k) ps"
    by (induction ps) auto
  have "distinct (map fst (rev (map (\<lambda>(k, v). (fold_name H k, v)) ps)))"
    unfolding rev_map [symmetric] distinct_rev e using assms .
  then have "AList.clearjunk (rev (map (\<lambda>(k, v). (fold_name H k, v)) ps)) =
      rev (map (\<lambda>(k, v). (fold_name H k, v)) ps)"
    by (rule distinct_clearjunk_id)
  then show ?thesis
    by (simp add: stored_attributes_def)
qed

lemma set_attributes_heap:
  "el < length (heap s) \<Longrightarrow> heap s ! el = ElementNode q tg al ks \<Longrightarrow>
   list_all (\<lambda>(k, v). attribute_name_ok H k) ps \<Longrightarrow>
   \<exists>s'. set_attributes H el ps s = (Inr (), s') \<and>
     heap s' = (heap s)[el := ElementNode q tg
        (fold (\<lambda>(k, v). AList.update (fold_name H k) v) ps al) ks]"
proof (induction ps arbitrary: s al)
  case Nil
  then have "(heap s)[el := ElementNode q tg al ks] = heap s"
    by (metis list_update_id)
  then show ?case by (simp add: js_return_def)
next
  case (Cons p ps)
  obtain k v where p: "p = (k, v)" by (cases p)
  from Cons.prems(3) have ok: "attribute_name_ok H k"
    and rest: "list_all (\<lambda>(k, v). attribute_name_ok H k) ps"
    by (simp_all add: p)
  let ?s1 = "s\<lparr>heap := (heap s)[el := ElementNode q tg (AList.update (fold_name H k) v al) ks],
               log := log s @ [SetAttribute el k v]\<rparr>"
  from Cons.prems(1,2) ok have 1: "setAttribute H (Some el) k v s = (Inr (), ?s1)"
    by (simp add: setAttribute_def lookup_def)
  from Cons.prems have "el < length (heap ?s1)"
    "heap ?s1 ! el = ElementNode q tg (AList.update (fold_name H k) v al) ks"
    by simp_all
  from Cons.IH [OF this rest] obtain s' where "set_attributes H el ps ?s1 = (Inr (), s')"
    and "heap s' = (heap ?s1)[el := ElementNode q tg
        (fold (\<lambda>(k, v). AList.update (fold_name H k) v) ps (AList.update (fold_name H k) v al)) ks]"
    by blast
  with 1 show ?case by (simp add: p js_bind_def)
qed

lemma appendChild_fresh:
  assumes "p < length (heap s)" "heap s ! p = ElementNode q tg al ks"
    "c < length (heap s)" "parentNode (heap s ! c) = None" "c \<noteq> p"
  shows "appendChild (Some p) c s =
    (Inr (), s\<lparr>heap := (heap s)[p := ElementNode q tg al (ks @ [c]),
                                c := with_parent (Some p) (heap s ! c)],
               log := log s @ [AppendChild p c]\<rparr>)"
  using assms by (simp add: appendChild_def lookup_def detach_def Let_def)

lemma upt_append_upt: "a \<le> b \<Longrightarrow> b \<le> c \<Longrightarrow> [a..<b] @ [b..<c] = [a..<c]"
  by (metis le_Suc_ex upt_add_eq_append)

lemma createTree_append_children_ok:
  "\<forall>s. host_accepts H d \<longrightarrow>
     (\<exists>s'. createTree H d s = (Inr (length (heap s)), s') \<and>
        unchanged_outside {} (heap s) (heap s') \<and>
        corresponds a H (heap s') None (length (heap s)) d \<and>
        nodes_of (heap s') (length (heap s)) d = [length (heap s)..<length (heap s')])"
  "\<forall>s q tg al ks. list_all (host_accepts H) cs \<longrightarrow> el < length (heap s) \<longrightarrow>
     heap s ! el = ElementNode q tg al ks \<longrightarrow>
     (\<exists>s' ms. append_children H el cs s = (Inr (), s') \<and>
        unchanged_outside {el} (heap s) (heap s') \<and>
        heap s' ! el = ElementNode q tg al (ks @ ms) \<and>
        list_all2 (corresponds a H (heap s') (Some el)) ms cs \<and>
        concat (map (\<lambda>(k, c). nodes_of (heap s') k c) (zip ms cs)) =
          [length (heap s)..<length (heap s')])"
proof (induction H d and H el cs rule: createTree_append_children.induct)
  case (1 H)
  show ?case by simp
next
  case (2 H t)
  show ?case
    by (simp add: createTextNode_def unchanged_outside_def nth_append)
next
  case (3 H ty ps cs)
  show ?case
  proof (intro allI impI)
    fix s :: dom
    assume acc: "host_accepts H (VElem ty ps cs)"
    let ?el = "length (heap s)"
    let ?tg = "fold_name H (to_DOMString ty)"
    let ?al = "fold (\<lambda>(k, v). AList.update (fold_name H k) v) ps []"
    let ?s1 = "s\<lparr>heap := heap s @ [ElementNode None ?tg [] []]\<rparr>"
    from acc have tag: "element_name_ok H (to_DOMString ty)"
      and names: "list_all (\<lambda>(k, v). attribute_name_ok H k) ps"
      and acs: "list_all (host_accepts H) cs"
      by simp_all
    from tag have c1: "createElement H (to_DOMString ty) s = (Inr ?el, ?s1)"
      by (simp add: createElement_def)
    have "?el < length (heap ?s1)" "heap ?s1 ! ?el = ElementNode None ?tg [] []"
      by simp_all
    from set_attributes_heap [OF this names] obtain s2
      where c2: "set_attributes H ?el ps ?s1 = (Inr (), s2)"
        and h2: "heap s2 = (heap ?s1)[?el := ElementNode None ?tg ?al []]"
      by blast
    from h2 have h2': "heap s2 = heap s @ [ElementNode None ?tg ?al []]"
      by simp
    from h2' have "?el < length (heap s2)" "heap s2 ! ?el = ElementNode None ?tg ?al []"
      by simp_all
    with 3 acs obtain s3 ms where c3: "append_children H ?el cs s2 = (Inr (), s3)"
      and u3: "unchanged_outside {?el} (heap s2) (heap s3)"
      and el3: "heap s3 ! ?el = ElementNode None ?tg ?al ([] @ ms)"
      and r3: "list_all2 (corresponds a H (heap s3) (Some ?el)) ms cs"
      and n3: "concat (map (\<lambda>(k, c). nodes_of (heap s3) k c) (zip ms cs)) =
          [length (heap s2)..<length (heap s3)]"
      by blast
    from u3 h2' have len: "Suc ?el \<le> length (heap s3)"
      by (simp add: unchanged_outside_def)
    have "createTree H (VElem ty ps cs) s = (Inr ?el, s3)"
      using c1 c2 c3 by (simp add: js_bind_def js_return_def)
    moreover have "unchanged_outside {} (heap s) (heap s3)"
      using u3 h2' by (auto simp: unchanged_outside_def nth_append)
    moreover have "corresponds a H (heap s3) None ?el (VElem ty ps cs)"
      using el3 r3 len fold_set_stored [of H ps] by simp
    moreover have "nodes_of (heap s3) ?el (VElem ty ps cs) = [?el..<length (heap s3)]"
      using el3 n3 h2' len by (simp add: upt_conv_Cons)
    ultimately show "\<exists>s'. createTree H (VElem ty ps cs) s = (Inr ?el, s') \<and>
        unchanged_outside {} (heap s) (heap s') \<and>
        corresponds a H (heap s') None ?el (VElem ty ps cs) \<and>
        nodes_of (heap s') ?el (VElem ty ps cs) = [?el..<length (heap s')]"
      by blast
  qed
next
  case (4 H el)
  show ?case
    by (simp add: js_return_def unchanged_outside_def)
next
  case (5 H el c cs)
  show ?case
  proof (intro allI impI)
    fix s :: dom and q tg al ks
    assume acc: "list_all (host_accepts H) (c # cs)" and el: "el < length (heap s)"
      and hel: "heap s ! el = ElementNode q tg al ks"
    let ?m = "length (heap s)"
    from acc "5.IH"(1) obtain s1 where c1: "createTree H c s = (Inr ?m, s1)"
      and u1: "unchanged_outside {} (heap s) (heap s1)"
      and r1: "corresponds a H (heap s1) None ?m c"
      and n1: "nodes_of (heap s1) ?m c = [?m..<length (heap s1)]"
      by auto
    from r1 have m1: "?m < length (heap s1)" and pm: "parentNode (heap s1 ! ?m) = None"
      by (auto dest: renders_root)
    from u1 el hel have hel1: "heap s1 ! el = ElementNode q tg al ks"
      by (simp add: unchanged_outside_def)
    let ?h2 = "(heap s1)[el := ElementNode q tg al (ks @ [?m]),
                          ?m := with_parent (Some el) (heap s1 ! ?m)]"
    let ?s2 = "s1\<lparr>heap := ?h2, log := log s1 @ [AppendChild el ?m]\<rparr>"
    have c2: "appendChild (Some el) ?m s1 = (Inr (), ?s2)"
      using el m1 hel1 pm by (intro appendChild_fresh) simp_all
    have el2: "el < length (heap ?s2)" "heap ?s2 ! el = ElementNode q tg al (ks @ [?m])"
      using el m1 by simp_all
    from acc have "list_all (host_accepts H) cs" by simp
    with "5.IH"(2) el2 obtain s3 ms where c3: "append_children H el cs ?s2 = (Inr (), s3)"
      and u3: "unchanged_outside {el} (heap ?s2) (heap s3)"
      and el3: "heap s3 ! el = ElementNode q tg al ((ks @ [?m]) @ ms)"
      and r3: "list_all2 (corresponds a H (heap s3) (Some el)) ms cs"
      and n3: "concat (map (\<lambda>(k, c). nodes_of (heap s3) k c) (zip ms cs)) =
          [length (heap ?s2)..<length (heap s3)]"
      by blast
    have len3: "length (heap s1) \<le> length (heap s3)"
      using u3 by (simp add: unchanged_outside_def)
    have rm: "corresponds a H (heap s3) (Some el) ?m c \<and> nodes_of (heap s3) ?m c = nodes_of (heap s1) ?m c"
    proof (rule renders_reparent_frame [OF r1 len3])
      show "heap s3 ! ?m = with_parent (Some el) (heap s1 ! ?m)"
        using u3 el m1 by (simp add: unchanged_outside_def)
      show "\<forall>x \<in> set (nodes_of (heap s1) ?m c). x \<noteq> ?m \<longrightarrow> heap s3 ! x = heap s1 ! x"
        using u3 el by (auto simp: n1 unchanged_outside_def)
      show "distinct (nodes_of (heap s1) ?m c)"
        by (simp add: n1)
    qed
    have "append_children H el (c # cs) s = (Inr (), s3)"
      using c1 c2 c3 by (simp add: js_bind_def)
    moreover have "unchanged_outside {el} (heap s) (heap s3)"
      using u1 u3 by (auto simp: unchanged_outside_def)
    moreover have "heap s3 ! el = ElementNode q tg al (ks @ (?m # ms))"
      using el3 by simp
    moreover have "list_all2 (corresponds a H (heap s3) (Some el)) (?m # ms) (c # cs)"
      using rm r3 by simp
    moreover have "concat (map (\<lambda>(k, c). nodes_of (heap s3) k c) (zip (?m # ms) (c # cs))) =
          [?m..<length (heap s3)]"
      using rm n1 n3 m1 len3 by (simp add: upt_append_upt)
    ultimately show "\<exists>s' ms. append_children H el (c # cs) s = (Inr (), s') \<and>
        unchanged_outside {el} (heap s) (heap s') \<and>
        heap s' ! el = ElementNode q tg al (ks @ ms) \<and>
        list_all2 (corresponds a H (heap s') (Some el)) ms (c # cs) \<and>
        concat (map (\<lambda>(k, c). nodes_of (heap s') k c) (zip ms (c # cs))) =
          [length (heap s)..<length (heap s')]"
      by blast
  qed
qed

text \<open>
  Claim C8, as amended. For every well-formed description \<open>d\<close> whose tag names and attribute
  names the host accepts, and every store, \<open>createTree\<close> returns without a fault. The node
  it returns is new (its reference is the first free cell), the cells that existed before
  are all unchanged, and the new cells are exactly the nodes of the subtree built. That
  subtree renders \<open>d\<close>: a text description gives a text node with exactly that string; an
  element description gives an element with that tag, every attribute of the mapping with
  its value as written, and the children built from the child descriptions, in their
  order. Tag and attribute names are the names as the host stores them.
\<close>

theorem createTree_builds:
  assumes "wf_vnode d" "host_accepts H d"
  shows "\<exists>s'. createTree H d s = (Inr (length (heap s)), s') \<and>
      take (length (heap s)) (heap s') = heap s \<and>
      renders H (heap s') None (length (heap s)) d \<and>
      nodes_of (heap s') (length (heap s)) d = [length (heap s)..<length (heap s')]"
proof -
  from assms(2) createTree_append_children_ok(1) [of H d] obtain s'
    where c: "createTree H d s = (Inr (length (heap s)), s')"
      and u: "unchanged_outside {} (heap s) (heap s')"
      and r: "renders H (heap s') None (length (heap s)) d"
      and n: "nodes_of (heap s') (length (heap s)) d = [length (heap s)..<length (heap s')]"
    by blast
  from u have "take (length (heap s)) (heap s') = heap s"
    by (intro nth_equalityI) (simp_all add: unchanged_outside_def)
  with c r n show ?thesis by blast
qed

text \<open>
  The theorem in a document of type text/html, at an element with an attribute and a text
  child, built into a store that holds one node.
\<close>

theorem createTree_builds_witness:
  "wf_vnode (VElem (Some ''div'') [(''class'', ''a'')] [VText ''hi'']) \<and>
   host_accepts html_document (VElem (Some ''div'') [(''class'', ''a'')] [VText ''hi'']) \<and>
   createTree html_document (VElem (Some ''div'') [(''class'', ''a'')] [VText ''hi''])
       \<lparr>heap = [TextNode None ''x''], log = []\<rparr> =
     (Inr 1, \<lparr>heap = [TextNode None ''x'', ElementNode None ''div'' [(''class'', ''a'')] [2],
                      TextNode (Some 1) ''hi''],
              log = [SetAttribute 1 ''class'' ''a'', AppendChild 1 2]\<rparr>) \<and>
   (\<exists>s'. createTree html_document (VElem (Some ''div'') [(''class'', ''a'')] [VText ''hi''])
       \<lparr>heap = [TextNode None ''x''], log = []\<rparr> = (Inr 1, s') \<and>
      take 1 (heap s') = [TextNode None ''x''] \<and>
      renders html_document (heap s') None 1
        (VElem (Some ''div'') [(''class'', ''a'')] [VText ''hi'']) \<and>
      nodes_of (heap s') 1 (VElem (Some ''div'') [(''class'', ''a'')] [VText ''hi'']) =
        [1..<length (heap s')])"
  using createTree_builds [of "VElem (Some ''div'') [(''class'', ''a'')] [VText ''hi'']"
      html_document "\<lparr>heap = [TextNode None ''x''], log = []\<rparr>"]
  by (simp add: prim_defs)

text \<open>
  Claim C8, as stated, fails: the data model takes any string as a tag name or an attribute
  name, and the host does not. On an empty tag name \<open>createElement\<close> throws and nothing is
  built; on an attribute name with a space in it \<open>setAttribute\<close> throws after the element
  has been created. And in a document of type text/html the names \<open>DIV\<close> and \<open>Class\<close> are
  not those of the element built, which has them in lower case.
\<close>

theorem createTree_refused_name:
  "wf_vnode (VElem (Some '''') [] []) \<and>
   createTree html_document (VElem (Some '''') [] []) \<lparr>heap = [], log = []\<rparr> =
     (Inl InvalidCharacterError, \<lparr>heap = [], log = []\<rparr>) \<and>
   createTree xml_document (VElem (Some '''') [] []) \<lparr>heap = [], log = []\<rparr> =
     (Inl InvalidCharacterError, \<lparr>heap = [], log = []\<rparr>) \<and>
   wf_vnode (VElem (Some ''div'') [(''a b'', ''x'')] []) \<and>
   createTree html_document (VElem (Some ''div'') [(''a b'', ''x'')] [])
       \<lparr>heap = [], log = []\<rparr> =
     (Inl InvalidCharacterError, \<lparr>heap = [ElementNode None ''div'' [] []], log = []\<rparr>) \<and>
   createTree xml_document (VElem (Some ''div'') [(''a b'', ''x'')] [])
       \<lparr>heap = [], log = []\<rparr> =
     (Inl InvalidCharacterError, \<lparr>heap = [ElementNode None ''div'' [] []], log = []\<rparr>) \<and>
   wf_vnode (VElem (Some ''DIV'') [(''Class'', ''a'')] []) \<and>
   createTree html_document (VElem (Some ''DIV'') [(''Class'', ''a'')] [])
       \<lparr>heap = [], log = []\<rparr> =
     (Inr 0, \<lparr>heap = [ElementNode None ''div'' [(''class'', ''a'')] []],
              log = [SetAttribute 0 ''Class'' ''a'']\<rparr>)"
  by (simp add: prim_defs)

section \<open>Rebuild and replace\<close>

lemma replaceChild_fresh:
  assumes "p < length (heap s)" "heap s ! p = ElementNode q tg al ks"
    "m < length (heap s)" "parentNode (heap s ! m) = None"
    "c < length (heap s)" "c \<in> set ks" "m \<noteq> p" "m \<noteq> c" "c \<noteq> p"
  shows "replaceChild (Some p) m (Some c) s =
    (Inr (), s\<lparr>heap := (heap s)[p := ElementNode q tg al (map (\<lambda>k. if k = c then m else k) ks),
                                c := with_parent None (heap s ! c),
                                m := with_parent (Some p) (heap s ! m)],
               log := log s @ [ReplaceChild p m c]\<rparr>)"
  using assms by (simp add: replaceChild_def lookup_def detach_def Let_def)

text \<open>What createTree does on any description at all: it only adds cells.\<close>

lemma set_attributes_frame:
  "el < length (heap s) \<Longrightarrow> heap s ! el = ElementNode q tg al ks \<Longrightarrow>
   \<exists>r s' al'. set_attributes H el ps s = (r, s') \<and>
     heap s' = (heap s)[el := ElementNode q tg al' ks]"
proof (induction ps arbitrary: s al)
  case Nil
  then have "heap s = (heap s)[el := ElementNode q tg al ks]"
    by (metis list_update_id)
  moreover have "set_attributes H el [] s = (Inr (), s)"
    by (simp add: js_return_def)
  ultimately show ?case by blast
next
  case (Cons p ps)
  obtain k v where p: "p = (k, v)" by (cases p)
  show ?case
  proof (cases "attribute_name_ok H k")
    case False
    with Cons.prems have "setAttribute H (Some el) k v s = (Inl InvalidCharacterError, s)"
      by (simp add: setAttribute_def lookup_def)
    then have "set_attributes H el (p # ps) s = (Inl InvalidCharacterError, s)"
      by (simp add: p js_bind_def)
    moreover from Cons.prems have "heap s = (heap s)[el := ElementNode q tg al ks]"
      by (metis list_update_id)
    ultimately show ?thesis by blast
  next
    case True
    let ?s1 = "s\<lparr>heap := (heap s)[el := ElementNode q tg (AList.update (fold_name H k) v al) ks],
                 log := log s @ [SetAttribute el k v]\<rparr>"
    from Cons.prems True have 1: "setAttribute H (Some el) k v s = (Inr (), ?s1)"
      by (simp add: setAttribute_def lookup_def)
    from Cons.prems have "el < length (heap ?s1)"
      "heap ?s1 ! el = ElementNode q tg (AList.update (fold_name H k) v al) ks"
      by simp_all
    from Cons.IH [OF this] obtain r s' al' where run: "set_attributes H el ps ?s1 = (r, s')"
      and h: "heap s' = (heap ?s1)[el := ElementNode q tg al' ks]"
      by blast
    from 1 run have "set_attributes H el (p # ps) s = (r, s')"
      by (simp add: p js_bind_def)
    moreover from h have "heap s' = (heap s)[el := ElementNode q tg al' ks]"
      by simp
    ultimately show ?thesis by blast
  qed
qed

lemma createTree_append_children_frame:
  "\<forall>s r s'. createTree H d s = (r, s') \<longrightarrow>
     unchanged_outside {} (heap s) (heap s') \<and>
     (\<forall>m. r = Inr m \<longrightarrow> m = length (heap s) \<and> m < length (heap s') \<and>
        parentNode (heap s' ! m) = None)"
  "\<forall>s r s' q tg al ks. append_children H el cs s = (r, s') \<longrightarrow> el < length (heap s) \<longrightarrow>
     heap s ! el = ElementNode q tg al ks \<longrightarrow>
     length (heap s) \<le> length (heap s') \<and>
     (\<forall>i<length (heap s). i \<noteq> el \<longrightarrow> heap s' ! i = heap s ! i) \<and>
     (\<exists>ks'. heap s' ! el = ElementNode q tg al ks')"
proof (induction H d and H el cs rule: createTree_append_children.induct)
  case (1 H)
  show ?case by (simp add: js_throw_def unchanged_outside_def)
next
  case (2 H t)
  show ?case
    by (auto simp: createTextNode_def unchanged_outside_def nth_append)
next
  case (3 H ty ps cs)
  show ?case
  proof (intro allI impI)
    fix s :: dom and r s'
    assume run: "createTree H (VElem ty ps cs) s = (r, s')"
    let ?el = "length (heap s)"
    let ?tg = "fold_name H (to_DOMString ty)"
    let ?s1 = "s\<lparr>heap := heap s @ [ElementNode None ?tg [] []]\<rparr>"
    show "unchanged_outside {} (heap s) (heap s') \<and>
     (\<forall>m. r = Inr m \<longrightarrow> m = length (heap s) \<and> m < length (heap s') \<and>
        parentNode (heap s' ! m) = None)"
    proof (cases "element_name_ok H (to_DOMString ty)")
      case False
      with run have "r = Inl InvalidCharacterError" "s' = s"
        by (simp_all add: createElement_def js_bind_def)
      then show ?thesis by (simp add: unchanged_outside_def)
    next
      case True
      then have c1: "createElement H (to_DOMString ty) s = (Inr ?el, ?s1)"
        by (simp add: createElement_def)
      have "?el < length (heap ?s1)" "heap ?s1 ! ?el = ElementNode None ?tg [] []"
        by simp_all
      from set_attributes_frame [OF this, of H ps] obtain r2 s2 al'
        where c2: "set_attributes H ?el ps ?s1 = (r2, s2)"
          and h2: "heap s2 = (heap ?s1)[?el := ElementNode None ?tg al' []]"
        by blast
      from h2 have h2': "heap s2 = heap s @ [ElementNode None ?tg al' []]"
        by simp
      show ?thesis
      proof (cases r2)
        case (Inl e)
        with run c1 c2 have "r = Inl e" "s' = s2"
          by (simp_all add: js_bind_def)
        with h2' show ?thesis by (simp add: unchanged_outside_def nth_append)
      next
        case (Inr u)
        obtain r3 s3 where c3: "append_children H ?el cs s2 = (r3, s3)"
          by (cases "append_children H ?el cs s2")
        from h2' have "?el < length (heap s2)" "heap s2 ! ?el = ElementNode None ?tg al' []"
          by simp_all
        with 3 c3 obtain ks' where len: "length (heap s2) \<le> length (heap s3)"
          and fr: "\<forall>i<length (heap s2). i \<noteq> ?el \<longrightarrow> heap s3 ! i = heap s2 ! i"
          and el3: "heap s3 ! ?el = ElementNode None ?tg al' ks'"
          by blast
        from run c1 c2 Inr c3 have r: "s' = s3"
          "r = (case r3 of Inl e \<Rightarrow> Inl e | Inr u \<Rightarrow> Inr ?el)"
          by (auto simp: js_bind_def js_return_def split: sum.splits)
        have "unchanged_outside {} (heap s) (heap s3)"
          using len fr h2' by (auto simp: unchanged_outside_def nth_append)
        moreover have "?el < length (heap s3)" using len h2' by simp
        moreover have "parentNode (heap s3 ! ?el) = None" using el3 by simp
        ultimately show ?thesis
          using r by (auto split: sum.splits)
      qed
    qed
  qed
next
  case (4 H el)
  show ?case
    by (auto simp: js_return_def)
next
  case (5 H el c cs)
  show ?case
  proof (intro allI impI)
    fix s :: dom and r s' q tg al ks
    assume run: "append_children H el (c # cs) s = (r, s')" and el: "el < length (heap s)"
      and hel: "heap s ! el = ElementNode q tg al ks"
    obtain r1 s1 where c1: "createTree H c s = (r1, s1)"
      by (cases "createTree H c s")
    with "5.IH"(1) have u1: "unchanged_outside {} (heap s) (heap s1)"
      and root: "\<forall>m. r1 = Inr m \<longrightarrow> m = length (heap s) \<and> m < length (heap s1) \<and>
        parentNode (heap s1 ! m) = None"
      by blast+
    from u1 el hel have hel1: "heap s1 ! el = ElementNode q tg al ks"
      and len1: "length (heap s) \<le> length (heap s1)"
      by (simp_all add: unchanged_outside_def)
    show "length (heap s) \<le> length (heap s') \<and>
     (\<forall>i<length (heap s). i \<noteq> el \<longrightarrow> heap s' ! i = heap s ! i) \<and>
     (\<exists>ks'. heap s' ! el = ElementNode q tg al ks')"
    proof (cases r1)
      case (Inl e)
      with run c1 have "s' = s1" by (simp add: js_bind_def)
      with u1 hel1 len1 show ?thesis by (auto simp: unchanged_outside_def)
    next
      case (Inr m)
      with root have m: "m = length (heap s)" "m < length (heap s1)"
        "parentNode (heap s1 ! m) = None" by auto
      let ?h2 = "(heap s1)[el := ElementNode q tg al (ks @ [m]),
                          m := with_parent (Some el) (heap s1 ! m)]"
      let ?s2 = "s1\<lparr>heap := ?h2, log := log s1 @ [AppendChild el m]\<rparr>"
      have c2: "appendChild (Some el) m s1 = (Inr (), ?s2)"
        using el m hel1 len1 by (intro appendChild_fresh) simp_all
      have el2: "el < length (heap ?s2)" "heap ?s2 ! el = ElementNode q tg al (ks @ [m])"
        using el m by simp_all
      from run c1 Inr c2 have c3: "append_children H el cs ?s2 = (r, s')"
        by (simp add: js_bind_def)
      with "5.IH"(2) el2 obtain ks' where len: "length (heap ?s2) \<le> length (heap s')"
        and fr: "\<forall>i<length (heap ?s2). i \<noteq> el \<longrightarrow> heap s' ! i = heap ?s2 ! i"
        and el3: "heap s' ! el = ElementNode q tg al ks'"
        by blast
      have "\<forall>i<length (heap s). i \<noteq> el \<longrightarrow> heap s' ! i = heap s ! i"
        using fr u1 m len1 by (auto simp: unchanged_outside_def)
      with len len1 el3 show ?thesis by auto
    qed
  qed
qed

lemma diff_replace:
  assumes acc: "host_accepts H new" and old: "old \<noteq> VNull" "\<not> (is_string old \<and> is_string new)"
    and ty: "js_type old \<noteq> js_type new"
    and n: "n < length (heap s)" "parentNode (heap s ! n) = Some p"
    and p: "p < length (heap s)" "heap s ! p = ElementNode q tg al ks" "n \<in> set ks" "n \<noteq> p"
  shows "\<exists>s'. diff H old new (Some n) s = (Inr (), s') \<and>
      diff H old new (Some n) s =
        js_bind (createTree H new) (\<lambda>m. replaceChild (Some p) m (Some n)) s \<and>
      heap s' ! p = ElementNode q tg al (map (\<lambda>k. if k = n then length (heap s) else k) ks) \<and>
      heap s' ! n = with_parent None (heap s ! n) \<and>
      unchanged_outside {p, n} (heap s) (heap s') \<and>
      corresponds a H (heap s') (Some p) (length (heap s)) new \<and>
      nodes_of (heap s') (length (heap s)) new = [length (heap s)..<length (heap s')]"
proof -
  let ?m = "length (heap s)"
  from acc createTree_append_children_ok(1) [of H new] obtain s1
    where c1: "createTree H new s = (Inr ?m, s1)"
      and u1: "unchanged_outside {} (heap s) (heap s1)"
      and r1: "corresponds a H (heap s1) None ?m new"
      and n1: "nodes_of (heap s1) ?m new = [?m..<length (heap s1)]"
    by blast
  from r1 have m1: "?m < length (heap s1)" and pm: "parentNode (heap s1 ! ?m) = None"
    by (auto dest: renders_root)
  from u1 n p have same: "heap s1 ! n = heap s ! n" "heap s1 ! p = heap s ! p"
    by (simp_all add: unchanged_outside_def)
  have c2: "get_parentNode (Some n) s1 = (Inr (Some p), s1)"
    using n m1 same by (simp add: get_parentNode_def lookup_def)
  let ?h2 = "(heap s1)[p := ElementNode q tg al (map (\<lambda>k. if k = n then ?m else k) ks),
                        n := with_parent None (heap s1 ! n),
                        ?m := with_parent (Some p) (heap s1 ! ?m)]"
  let ?s2 = "s1\<lparr>heap := ?h2, log := log s1 @ [ReplaceChild p ?m n]\<rparr>"
  have c3: "replaceChild (Some p) ?m (Some n) s1 = (Inr (), ?s2)"
    using n p m1 pm same by (intro replaceChild_fresh) simp_all
  from acc have new: "new \<noteq> VNull" by auto
  have "diff_cases H old new (Some n) =
      js_bind (createTree H new) (\<lambda>m.
      js_bind (get_parentNode (Some n)) (\<lambda>p.
      js_bind (replaceChild p m (Some n)) (\<lambda>_. js_return True)))"
    unfolding diff_cases_def using old(1) new ty
    by (simp add: if_not_P [OF old(2)])
  then have run: "diff H old new (Some n) s = (Inr (), ?s2)"
    using c1 c2 c3
    by (simp add: diff.simps js_bind_def js_return_def)
  have eq: "diff H old new (Some n) s =
        js_bind (createTree H new) (\<lambda>m. replaceChild (Some p) m (Some n)) s"
    using run c1 c3 by (simp add: js_bind_def)
  have hp: "heap ?s2 ! p = ElementNode q tg al (map (\<lambda>k. if k = n then ?m else k) ks)"
    using n p m1 by simp
  have hn: "heap ?s2 ! n = with_parent None (heap s ! n)"
    using n p m1 same by simp
  have u2: "unchanged_outside {p, n} (heap s) (heap ?s2)"
    using u1 by (auto simp: unchanged_outside_def)
  have rm: "corresponds a H (heap ?s2) (Some p) ?m new \<and> nodes_of (heap ?s2) ?m new = nodes_of (heap s1) ?m new"
  proof (rule renders_reparent_frame [OF r1])
    show "length (heap s1) \<le> length (heap ?s2)" by simp
    show "heap ?s2 ! ?m = with_parent (Some p) (heap s1 ! ?m)"
      using m1 by simp
    show "\<forall>x \<in> set (nodes_of (heap s1) ?m new). x \<noteq> ?m \<longrightarrow> heap ?s2 ! x = heap s1 ! x"
      using n p by (auto simp: n1)
    show "distinct (nodes_of (heap s1) ?m new)"
      by (simp add: n1)
  qed
  with n1 have "nodes_of (heap ?s2) ?m new = [?m..<length (heap ?s2)]" by simp
  with run eq hp hn u2 rm show ?thesis by blast
qed

text \<open>
  Claim C6, as amended. For a text description against an element description with a tag
  name, or the other way round, where the host accepts the names of the new description,
  with a live node \<open>n\<close> that is a child of the element \<open>p\<close>: \<open>diff\<close> is exactly "build the
  new description, then replace \<open>n\<close> by the result under \<open>p\<close>", which is what the branch
  for two different tag names does. The new root takes the place of \<open>n\<close> in the child list
  of \<open>p\<close>, \<open>n\<close> is detached and otherwise as it was, no other earlier cell changes, and the
  subtree that now renders the new description consists of newly allocated cells only.
\<close>

theorem diff_mixed_rebuilds_and_replaces:
  assumes "wf_vnode old" "wf_vnode new" "host_accepts H new" "is_string old \<noteq> is_string new"
    and "n < length (heap s)" "parentNode (heap s ! n) = Some p"
    and "p < length (heap s)" "heap s ! p = ElementNode q tg al ks" "n \<in> set ks" "n \<noteq> p"
  shows "\<exists>s'. diff H old new (Some n) s = (Inr (), s') \<and>
      diff H old new (Some n) s =
        js_bind (createTree H new) (\<lambda>m. replaceChild (Some p) m (Some n)) s \<and>
      heap s' ! p = ElementNode q tg al (map (\<lambda>k. if k = n then length (heap s) else k) ks) \<and>
      heap s' ! n = with_parent None (heap s ! n) \<and>
      unchanged_outside {p, n} (heap s) (heap s') \<and>
      renders H (heap s') (Some p) (length (heap s)) new \<and>
      nodes_of (heap s') (length (heap s)) new = [length (heap s)..<length (heap s')]"
proof -
  from assms(1) have "old \<noteq> VNull" by auto
  moreover from assms(4) have "\<not> (is_string old \<and> is_string new)" by auto
  moreover from assms(1,2,4) have "js_type old \<noteq> js_type new"
    by (cases old; cases new) auto
  ultimately show ?thesis
    using assms(3,5-) by (intro diff_replace)
qed

text \<open>
  The theorem in a document of type text/html, at a text child that becomes a paragraph
  element.
\<close>

theorem diff_mixed_rebuilds_and_replaces_witness:
  "wf_vnode (VText ''hi'') \<and> wf_vnode (VElem (Some ''p'') [(''id'', ''x'')] [VText ''yo'']) \<and>
   host_accepts html_document (VElem (Some ''p'') [(''id'', ''x'')] [VText ''yo'']) \<and>
   is_string (VText ''hi'') \<noteq> is_string (VElem (Some ''p'') [(''id'', ''x'')] [VText ''yo'']) \<and>
   diff html_document (VText ''hi'') (VElem (Some ''p'') [(''id'', ''x'')] [VText ''yo'']) (Some 1)
       \<lparr>heap = [ElementNode None ''div'' [] [1], TextNode (Some 0) ''hi''], log = []\<rparr> =
     (Inr (), \<lparr>heap = [ElementNode None ''div'' [] [2], TextNode None ''hi'',
                       ElementNode (Some 0) ''p'' [(''id'', ''x'')] [3], TextNode (Some 2) ''yo''],
               log = [SetAttribute 2 ''id'' ''x'', AppendChild 2 3, ReplaceChild 0 2 1]\<rparr>) \<and>
   (\<exists>s'. diff html_document (VText ''hi'') (VElem (Some ''p'') [(''id'', ''x'')] [VText ''yo''])
         (Some 1)
         \<lparr>heap = [ElementNode None ''div'' [] [1], TextNode (Some 0) ''hi''], log = []\<rparr> =
           (Inr (), s') \<and>
      heap s' ! 0 = ElementNode None ''div'' [] [2] \<and>
      heap s' ! 1 = TextNode None ''hi'' \<and>
      renders html_document (heap s') (Some 0) 2
        (VElem (Some ''p'') [(''id'', ''x'')] [VText ''yo'']) \<and>
      nodes_of (heap s') 2 (VElem (Some ''p'') [(''id'', ''x'')] [VText ''yo'']) =
        [2..<length (heap s')])"
  using diff_mixed_rebuilds_and_replaces [where H = html_document and old = "VText ''hi''"
      and new = "VElem (Some ''p'') [(''id'', ''x'')] [VText ''yo'']" and n = 1
      and s = "\<lparr>heap = [ElementNode None ''div'' [] [1], TextNode (Some 0) ''hi''], log = []\<rparr>"
      and p = 0 and q = None and tg = "''div''" and al = "[]" and ks = "[1]"]
  by (simp add: prim_defs)

text \<open>
  Claim C6, as stated, fails where the host refuses a name of the new description. With an
  empty tag name \<open>createElement\<close> throws: nothing is built and the live text node stays in
  its parent. With an attribute name that has a space in it \<open>setAttribute\<close> throws: an
  element has been created, and the live text node is still not replaced.
\<close>

theorem diff_mixed_refused_name:
  "wf_vnode (VText ''hi'') \<and> wf_vnode (VElem (Some '''') [] []) \<and>
   is_string (VText ''hi'') \<noteq> is_string (VElem (Some '''') [] []) \<and>
   diff html_document (VText ''hi'') (VElem (Some '''') [] []) (Some 1)
       \<lparr>heap = [ElementNode None ''div'' [] [1], TextNode (Some 0) ''hi''], log = []\<rparr> =
     (Inl InvalidCharacterError,
      \<lparr>heap = [ElementNode None ''div'' [] [1], TextNode (Some 0) ''hi''], log = []\<rparr>) \<and>
   wf_vnode (VElem (Some ''p'') [(''a b'', ''x'')] []) \<and>
   diff html_document (VText ''hi'') (VElem (Some ''p'') [(''a b'', ''x'')] []) (Some 1)
       \<lparr>heap = [ElementNode None ''div'' [] [1], TextNode (Some 0) ''hi''], log = []\<rparr> =
     (Inl InvalidCharacterError,
      \<lparr>heap = [ElementNode None ''div'' [] [1], TextNode (Some 0) ''hi'',
               ElementNode None ''p'' [] []], log = []\<rparr>)"
  by (simp add: prim_defs)

section \<open>Faults\<close>

text \<open>
  Claim C9, as amended. \<open>createTree\<close> on \<open>null\<close> throws with the store unchanged, and
  \<open>diff\<close> with a null old description and a null live node (no parent to append to)
  throws with every earlier cell unchanged, whatever the new description is. A description
  whose element variant has no tag name is not rejected: the text \<open>undefined\<close> reaches the
  host as the tag name, and where the host accepts the names of the description, that one
  among them, \<open>createTree\<close> returns an element with the tag \<open>undefined\<close> (as the host
  stores it) that renders the description.
\<close>

theorem faults_on_null_not_on_missing_tag:
  "createTree H VNull s = (Inl TypeError, s) \<and>
   (\<exists>e s'. diff H VNull new None s = (Inl e, s') \<and> unchanged_outside {} (heap s) (heap s')) \<and>
   (host_accepts H (VElem None ps cs) \<longrightarrow>
      (\<exists>s'. createTree H (VElem None ps cs) s = (Inr (length (heap s)), s') \<and>
         renders H (heap s') None (length (heap s)) (VElem None ps cs) \<and>
         (\<exists>al ks. heap s' ! length (heap s) =
            ElementNode None (fold_name H ''undefined'') al ks)))"
proof (intro conjI impI)
  show "createTree H VNull s = (Inl TypeError, s)"
    by (simp add: js_throw_def)
next
  obtain r s1 where c1: "createTree H new s = (r, s1)"
    by (cases "createTree H new s")
  with createTree_append_children_frame(1) [of H new]
  have u1: "unchanged_outside {} (heap s) (heap s1)" by blast
  have "diff_cases H VNull new None =
      js_bind (createTree H new) (\<lambda>m. js_bind (appendChild None m) (\<lambda>_. js_return True))"
    by (simp add: diff_cases_def)
  then have "diff H VNull new None s = (case r of Inl e \<Rightarrow> (Inl e, s1) | Inr m \<Rightarrow> (Inl TypeError, s1))"
    using c1 by (simp add: diff.simps js_bind_def appendChild_def split: sum.splits)
  with u1 show "\<exists>e s'. diff H VNull new None s = (Inl e, s') \<and> unchanged_outside {} (heap s) (heap s')"
    by (cases r) auto
next
  assume acc: "host_accepts H (VElem None ps cs)"
  let ?el = "length (heap s)"
  from acc createTree_append_children_ok(1) [of H "VElem None ps cs" True] obtain s'
    where c: "createTree H (VElem None ps cs) s = (Inr ?el, s')"
      and r: "renders H (heap s') None ?el (VElem None ps cs)"
    by blast
  from r obtain al ks where "heap s' ! ?el = ElementNode None (fold_name H (to_DOMString None)) al ks"
    by (rule renders_ElemE)
  then have "\<exists>al ks. heap s' ! ?el = ElementNode None (fold_name H ''undefined'') al ks"
    by simp
  with c r show "\<exists>s'. createTree H (VElem None ps cs) s = (Inr ?el, s') \<and>
         renders H (heap s') None ?el (VElem None ps cs) \<and>
         (\<exists>al ks. heap s' ! ?el = ElementNode None (fold_name H ''undefined'') al ks)"
    by blast
qed

text \<open>The three parts of the theorem in a document of type text/html, on a store with one
  node.\<close>

theorem faults_on_null_not_on_missing_tag_witness:
  "createTree html_document VNull \<lparr>heap = [TextNode None ''x''], log = []\<rparr> =
     (Inl TypeError, \<lparr>heap = [TextNode None ''x''], log = []\<rparr>) \<and>
   diff html_document VNull (VElem (Some ''p'') [] []) None
       \<lparr>heap = [TextNode None ''x''], log = []\<rparr> =
     (Inl TypeError, \<lparr>heap = [TextNode None ''x'', ElementNode None ''p'' [] []], log = []\<rparr>) \<and>
   unchanged_outside {} [TextNode None ''x''] [TextNode None ''x'', ElementNode None ''p'' [] []] \<and>
   host_accepts html_document (VElem None [(''id'', ''a'')] [VText ''t'']) \<and>
   createTree html_document (VElem None [(''id'', ''a'')] [VText ''t''])
       \<lparr>heap = [TextNode None ''x''], log = []\<rparr> =
     (Inr 1, \<lparr>heap = [TextNode None ''x'', ElementNode None ''undefined'' [(''id'', ''a'')] [2],
                      TextNode (Some 1) ''t''],
              log = [SetAttribute 1 ''id'' ''a'', AppendChild 1 2]\<rparr>)"
  using faults_on_null_not_on_missing_tag [where H = html_document
      and s = "\<lparr>heap = [TextNode None ''x''], log = []\<rparr>"
      and new = "VElem (Some ''p'') [] []" and ps = "[(''id'', ''a'')]" and cs = "[VText ''t'']"]
  by (simp add: prim_defs unchanged_outside_def)

text \<open>
  Claim C9, as stated, fails. An element description without a tag name is built without a
  fault. And a fault need not come before the first mutation: with \<open>null\<close> among the new
  children, \<open>diff\<close> has already written the attribute when \<open>createTree(null)\<close> throws.
  Both in a document of type text/html and in an XML document.
\<close>

theorem missing_tag_and_late_fault:
  "createTree html_document (VElem None [] []) \<lparr>heap = [], log = []\<rparr> =
     (Inr 0, \<lparr>heap = [ElementNode None ''undefined'' [] []], log = []\<rparr>) \<and>
   diff html_document (VElem (Some ''div'') [(''class'', ''a'')] [])
        (VElem (Some ''div'') [(''class'', ''b'')] [VNull]) (Some 0)
        \<lparr>heap = [ElementNode None ''div'' [(''class'', ''a'')] []], log = []\<rparr> =
     (Inl TypeError, \<lparr>heap = [ElementNode None ''div'' [(''class'', ''b'')] []],
                      log = [SetAttribute 0 ''class'' ''b'']\<rparr>) \<and>
   createTree xml_document (VElem None [] []) \<lparr>heap = [], log = []\<rparr> =
     (Inr 0, \<lparr>heap = [ElementNode None ''undefined'' [] []], log = []\<rparr>) \<and>
   diff xml_document (VElem (Some ''div'') [(''class'', ''a'')] [])
        (VElem (Some ''div'') [(''class'', ''b'')] [VNull]) (Some 0)
        \<lparr>heap = [ElementNode None ''div'' [(''class'', ''a'')] []], log = []\<rparr> =
     (Inl TypeError, \<lparr>heap = [ElementNode None ''div'' [(''class'', ''b'')] []],
                      log = [SetAttribute 0 ''class'' ''b'']\<rparr>)"
  by (simp add: prim_defs)

section \<open>The null cases\<close>

text \<open>
  Claim C10. For every live node \<open>p\<close>, \<open>diff(null, null, p)\<close> takes the old-is-null
  branch, and \<open>createTree(null)\<close> throws at the read of \<open>vnode.type\<close> before anything is
  created or appended: the call ends in a \<open>TypeError\<close> and the store (every node and the
  record of mutations) is exactly what it was. This holds in every host.
\<close>

theorem diff_null_null_faults_unchanged:
  "diff H VNull VNull (Some p) s = (Inl TypeError, s)"
  by (simp add: diff.simps diff_cases_def js_bind_def js_throw_def)

section \<open>Two texts\<close>

text \<open>
  Claim C7. For two text descriptions and a live text node: when the strings are equal,
  \<open>diff\<close> returns with the store unchanged (no mutation is recorded); when they differ,
  the only change is that the same live node now carries the new string, recorded as one
  \<open>SetTextContent\<close> on that node, with its parent reference and every other node as before.
  This holds in every host.
\<close>

theorem diff_text_text:
  assumes "lookup s n = Some (TextNode p u)"
  shows "diff H (VText a) (VText b) (Some n) s =
     (Inr (), if a = b then s
              else s\<lparr>heap := (heap s)[n := TextNode p b],
                     log := log s @ [SetTextContent n b]\<rparr>)"
  using assms
  by (simp add: diff.simps diff_loop.simps diff_cases_def diff_tail_def minLength_def
      js_bind_def js_return_def set_textContent_def)

theorem diff_text_text_witness:
  "lookup \<lparr>heap = [TextNode None ''hi''], log = []\<rparr> 0 = Some (TextNode None ''hi'')
   \<and> diff html_document (VText ''hi'') (VText ''bye'') (Some 0)
         \<lparr>heap = [TextNode None ''hi''], log = []\<rparr> =
       (Inr (), \<lparr>heap = [TextNode None ''bye''], log = [SetTextContent 0 ''bye'']\<rparr>)
   \<and> diff html_document (VText ''hi'') (VText ''hi'') (Some 0)
         \<lparr>heap = [TextNode None ''hi''], log = []\<rparr> =
       (Inr (), \<lparr>heap = [TextNode None ''hi''], log = []\<rparr>)"
  using diff_text_text [where H = html_document
      and s = "\<lparr>heap = [TextNode None ''hi''], log = []\<rparr>" and n = 0 and p = None
      and u = "''hi''" and a = "''hi''" and b = "''bye''"]
    diff_text_text [where H = html_document
      and s = "\<lparr>heap = [TextNode None ''hi''], log = []\<rparr>" and n = 0 and p = None
      and u = "''hi''" and a = "''hi''" and b = "''hi''"]
  by (simp add: lookup_def)

section \<open>The same description twice\<close>

lemma remove_old_attributes_noop:
  "\<forall>k \<in> set keys. js_in k nps \<Longrightarrow> remove_old_attributes H dn nps keys s = (Inr (), s)"
  by (induction keys) (simp_all add: js_return_def js_bind_def)

lemma set_new_attributes_noop:
  "\<forall>(k, v) \<in> set kvs. js_in k ops \<and> js_get ops k = JString v \<Longrightarrow>
   set_new_attributes H dn ops kvs s = (Inr (), s)"
  by (induction kvs) (auto simp: js_return_def js_bind_def)

lemma js_get_own: "distinct (map fst ps) \<Longrightarrow> (k, v) \<in> set ps \<Longrightarrow> js_get ps k = JString v"
  by (simp add: js_get_def)

lemma js_in_own: "(k, v) \<in> set ps \<Longrightarrow> js_in k ps"
  by (force simp: js_in_def)

lemma diff_same_noop:
  "wf_vnode d \<Longrightarrow> corresponds a H (heap s) par n d \<Longrightarrow> diff H d d (Some n) s = (Inr (), s)"
proof (induction d arbitrary: s par n)
  case VNull
  then show ?case by simp
next
  case (VText t)
  then show ?case
    by (simp add: diff.simps diff_loop.simps diff_cases_def diff_tail_def minLength_def
        js_bind_def js_return_def)
next
  case (VElem ty ps cs)
  let ?d = "VElem ty ps cs"
  from VElem.prems(2) obtain al ks where n: "n < length (heap s)"
    and hn: "heap s ! n = ElementNode par (fold_name H (to_DOMString ty)) al ks"
    and all2: "list_all2 (corresponds a H (heap s) (Some n)) ks cs"
    by (rule renders_ElemE)
  from VElem.prems(1) have dist: "distinct (map fst ps)" and wfcs: "list_all wf_vnode cs"
    by simp_all
  have "remove_old_attributes H (Some n) ps (map fst ps) s = (Inr (), s)"
    by (rule remove_old_attributes_noop) (auto simp: js_in_def)
  moreover have "set_new_attributes H (Some n) ps ps s = (Inr (), s)"
    by (rule set_new_attributes_noop) (auto simp: js_in_own js_get_own [OF dist])
  ultimately have cases: "diff_cases H ?d ?d (Some n) s = (Inr False, s)"
    by (simp add: diff_cases_def js_bind_def js_return_def)
  have loop: "diff_loop H i ?d ?d (Some n) s = (Inr (), s)" for i
  proof (induction "length cs - i" arbitrary: i)
    case 0
    then show ?case by (simp add: diff_loop.simps minLength_def js_return_def)
  next
    case (Suc k)
    then have i: "i < length cs" by simp
    with all2 have iks: "i < length ks"
      and r: "corresponds a H (heap s) (Some n) (ks ! i) (cs ! i)"
      by (auto simp: list_all2_conv_all_nth)
    from i wfcs have "wf_vnode (cs ! i)" by (simp add: list_all_length)
    with VElem.IH r i have "diff H (cs ! i) (cs ! i) (Some (ks ! i)) s = (Inr (), s)"
      by simp
    moreover have "get_childNode (Some n) i s = (Inr (Some (ks ! i)), s)"
      using n hn iks by (simp add: get_childNode_def lookup_def)
    moreover from Suc.hyps(2) have "diff_loop H (Suc i) ?d ?d (Some n) s = (Inr (), s)"
      by (intro Suc.hyps(1)) simp
    ultimately show ?case
      using i by (simp add: diff_loop.simps [of _ i] minLength_def js_bind_def)
  qed
  have "diff_tail H ?d ?d (Some n) s = (Inr (), s)"
    by (simp add: diff_tail_def js_bind_def js_return_def)
  with cases loop [of 0] show ?case
    by (simp add: diff.simps js_bind_def)
qed

text \<open>Where \<open>createTree\<close> returns a node, the host has accepted every name.\<close>

lemma set_attributes_returns:
  "set_attributes H el ps s = (Inr u, s') \<Longrightarrow> list_all (\<lambda>(k, v). attribute_name_ok H k) ps"
proof (induction ps arbitrary: s)
  case Nil
  then show ?case by simp
next
  case (Cons p ps)
  obtain k v where p: "p = (k, v)" by (cases p)
  from Cons.prems obtain s1 where 1: "setAttribute H (Some el) k v s = (Inr (), s1)"
    and 2: "set_attributes H el ps s1 = (Inr u, s')"
    by (auto simp: p js_bind_def split: prod.splits sum.splits)
  from 1 have "attribute_name_ok H k"
    by (auto simp: setAttribute_def split: option.splits node.splits if_splits)
  with Cons.IH [OF 2] show ?case by (simp add: p)
qed

lemma createTree_append_children_returns:
  "\<forall>s n s'. createTree H d s = (Inr n, s') \<longrightarrow> host_accepts H d"
  "\<forall>s u s'. append_children H el cs s = (Inr u, s') \<longrightarrow> list_all (host_accepts H) cs"
proof (induction H d and H el cs rule: createTree_append_children.induct)
  case (1 H)
  show ?case by (simp add: js_throw_def)
next
  case (2 H t)
  show ?case by simp
next
  case (3 H ty ps cs)
  show ?case
  proof (intro allI impI)
    fix s n s'
    assume "createTree H (VElem ty ps cs) s = (Inr n, s')"
    then obtain el s1 u1 s2 u2 s3
      where c1: "createElement H (to_DOMString ty) s = (Inr el, s1)"
        and c2: "set_attributes H el ps s1 = (Inr u1, s2)"
        and c3: "append_children H el cs s2 = (Inr u2, s3)"
      by (auto simp: js_bind_def js_return_def split: prod.splits sum.splits)
    from c1 have "element_name_ok H (to_DOMString ty)"
      by (auto simp: createElement_def split: if_splits)
    moreover from c2 have "list_all (\<lambda>(k, v). attribute_name_ok H k) ps"
      by (rule set_attributes_returns)
    moreover from c3 3 have "list_all (host_accepts H) cs"
      by blast
    ultimately show "host_accepts H (VElem ty ps cs)" by simp
  qed
next
  case (4 H el)
  show ?case by simp
next
  case (5 H el c cs)
  show ?case
  proof (intro allI impI)
    fix s u s'
    assume "append_children H el (c # cs) s = (Inr u, s')"
    then obtain m s1 u2 s2 where c1: "createTree H c s = (Inr m, s1)"
      and c2: "appendChild (Some el) m s1 = (Inr u2, s2)"
      and c3: "append_children H el cs s2 = (Inr u, s')"
      by (auto simp: js_bind_def split: prod.splits sum.splits)
    from c1 "5.IH"(1) have "host_accepts H c" by blast
    moreover from c3 "5.IH"(2) have "list_all (host_accepts H) cs" by blast
    ultimately show "list_all (host_accepts H) (c # cs)" by simp
  qed
qed

text \<open>
  Claim C4. For every well-formed description \<open>d\<close>: whenever \<open>createTree(d)\<close> returns a
  node \<open>n\<close>, the call \<open>diff(d, d, n)\<close> returns with the store exactly as it was: no cell has
  changed and no call of a mutating primitive (attribute, text or child list) is recorded,
  at any level of the recursion. And \<open>createTree(d)\<close> does return a node where the host
  accepts the names of \<open>d\<close>.
\<close>

theorem diff_same_description_no_mutation:
  assumes "wf_vnode d"
  shows "(\<forall>n s'. createTree H d s = (Inr n, s') \<longrightarrow> diff H d d (Some n) s' = (Inr (), s')) \<and>
    (host_accepts H d \<longrightarrow> (\<exists>n s'. createTree H d s = (Inr n, s')))"
proof (intro conjI allI impI)
  fix n s'
  assume run: "createTree H d s = (Inr n, s')"
  with createTree_append_children_returns(1) [of H d] have "host_accepts H d"
    by blast
  with createTree_append_children_ok(1) [of H d False] obtain s''
    where "createTree H d s = (Inr (length (heap s)), s'')"
      and "shaped H (heap s'') None (length (heap s)) d"
    by blast
  with run have "shaped H (heap s') None n d" by simp
  with assms show "diff H d d (Some n) s' = (Inr (), s')"
    by (rule diff_same_noop)
next
  assume "host_accepts H d"
  with createTree_append_children_ok(1) [of H d False]
  show "\<exists>n s'. createTree H d s = (Inr n, s')" by blast
qed

text \<open>
  The theorem in a document of type text/html, at an element with an attribute, a text
  child and an element child.
\<close>

theorem diff_same_description_no_mutation_witness:
  "wf_vnode (VElem (Some ''div'') [(''class'', ''a'')] [VText ''hi'', VElem (Some ''p'') [] []]) \<and>
   host_accepts html_document
     (VElem (Some ''div'') [(''class'', ''a'')] [VText ''hi'', VElem (Some ''p'') [] []]) \<and>
   createTree html_document
       (VElem (Some ''div'') [(''class'', ''a'')] [VText ''hi'', VElem (Some ''p'') [] []])
       \<lparr>heap = [], log = []\<rparr> =
     (Inr 0, \<lparr>heap = [ElementNode None ''div'' [(''class'', ''a'')] [1, 2], TextNode (Some 0) ''hi'',
                      ElementNode (Some 0) ''p'' [] []],
              log = [SetAttribute 0 ''class'' ''a'', AppendChild 0 1, AppendChild 0 2]\<rparr>) \<and>
   diff html_document
        (VElem (Some ''div'') [(''class'', ''a'')] [VText ''hi'', VElem (Some ''p'') [] []])
        (VElem (Some ''div'') [(''class'', ''a'')] [VText ''hi'', VElem (Some ''p'') [] []]) (Some 0)
        \<lparr>heap = [ElementNode None ''div'' [(''class'', ''a'')] [1, 2], TextNode (Some 0) ''hi'',
                 ElementNode (Some 0) ''p'' [] []],
         log = [SetAttribute 0 ''class'' ''a'', AppendChild 0 1, AppendChild 0 2]\<rparr> =
     (Inr (), \<lparr>heap = [ElementNode None ''div'' [(''class'', ''a'')] [1, 2], TextNode (Some 0) ''hi'',
                       ElementNode (Some 0) ''p'' [] []],
               log = [SetAttribute 0 ''class'' ''a'', AppendChild 0 1, AppendChild 0 2]\<rparr>)"
  using diff_same_description_no_mutation
    [where H = html_document
       and d = "VElem (Some ''div'') [(''class'', ''a'')] [VText ''hi'', VElem (Some ''p'') [] []]"
       and s = "\<lparr>heap = [], log = []\<rparr>"]
  by (simp add: prim_defs)

section \<open>Updating a live subtree in place\<close>

lemma rerendered_trans:
  assumes "rerendered a H h h1 par n d1 d2" "rerendered a H h1 h2 par n d2 d3"
  shows "rerendered a H h h2 par n d1 d3"
proof -
  from assms have l: "length h \<le> length h1" "length h1 \<le> length h2"
    by (simp_all add: rerendered_def unchanged_outside_def)
  from assms have sub1: "set (nodes_of h1 n d2) \<subseteq> set (nodes_of h n d1) \<union> {length h..<length h1}"
    and sub2: "set (nodes_of h2 n d3) \<subseteq> set (nodes_of h1 n d2) \<union> {length h1..<length h2}"
    by (simp_all add: rerendered_def)
  have "set (nodes_of h2 n d3) \<subseteq> set (nodes_of h n d1) \<union> {length h..<length h2}"
  proof
    fix x assume "x \<in> set (nodes_of h2 n d3)"
    with sub2 have "x \<in> set (nodes_of h1 n d2) \<or> (length h1 \<le> x \<and> x < length h2)" by auto
    then show "x \<in> set (nodes_of h n d1) \<union> {length h..<length h2}"
    proof
      assume "x \<in> set (nodes_of h1 n d2)"
      with sub1 have "x \<in> set (nodes_of h n d1) \<or> (length h \<le> x \<and> x < length h1)" by auto
      with l show ?thesis by auto
    next
      assume "length h1 \<le> x \<and> x < length h2"
      with l show ?thesis by auto
    qed
  qed
  moreover have "unchanged_outside (set (nodes_of h n d1)) h h2"
    unfolding unchanged_outside_def
  proof (intro conjI allI impI)
    show "length h \<le> length h2" using l by simp
  next
    fix i assume i: "i < length h" "i \<notin> set (nodes_of h n d1)"
    with sub1 have "i \<notin> set (nodes_of h1 n d2)" by auto
    moreover from i l have "i < length h1" by simp
    ultimately have "h2 ! i = h1 ! i"
      using assms(2) by (simp add: rerendered_def unchanged_outside_def)
    moreover from i assms(1) have "h1 ! i = h ! i"
      by (simp add: rerendered_def unchanged_outside_def)
    ultimately show "h2 ! i = h ! i" by simp
  qed
  ultimately show ?thesis
    using assms(2) by (simp add: rerendered_def)
qed

lemma nth_subset_concat: "i < length xss \<Longrightarrow> set (xss ! i) \<subseteq> set (concat xss)"
  by (metis nth_mem set_concat UN_upper)

lemma distinct_concat_nth: "distinct (concat xss) \<Longrightarrow> i < length xss \<Longrightarrow> distinct (xss ! i)"
  by (induction xss arbitrary: i) (auto simp: nth_Cons split: nat.splits)

lemma distinct_concat_disjoint:
  "distinct (concat xss) \<Longrightarrow> i < length xss \<Longrightarrow> j < length xss \<Longrightarrow> i \<noteq> j \<Longrightarrow>
   set (xss ! i) \<inter> set (xss ! j) = {}"
proof (induction xss arbitrary: i j)
  case Nil
  then show ?case by simp
next
  case (Cons xs xss)
  show ?case
  proof (cases i)
    case 0
    with Cons.prems obtain j' where j: "j = Suc j'" "j' < length xss"
      by (cases j) auto
    then have "set (xss ! j') \<subseteq> set (concat xss)" by (intro nth_subset_concat)
    with Cons.prems(1) 0 j show ?thesis by auto
  next
    case (Suc i')
    show ?thesis
    proof (cases j)
      case 0
      from Suc Cons.prems have "set (xss ! i') \<subseteq> set (concat xss)" by (intro nth_subset_concat) simp
      with Cons.prems(1) 0 Suc show ?thesis by auto
    next
      case (Suc j')
      with \<open>i = Suc i'\<close> Cons.prems Cons.IH [of i' j'] show ?thesis by simp
    qed
  qed
qed

lemma distinct_concat_update:
  assumes "distinct (concat xss)" "i < length xss" "distinct L"
    "set L \<subseteq> set (xss ! i) \<union> F" "F \<inter> set (concat xss) = {}"
  shows "distinct (concat (xss[i := L]))"
    and "set (concat (xss[i := L])) \<subseteq> set (concat xss) \<union> F"
proof -
  let ?A = "take i xss" and ?B = "drop (Suc i) xss"
  from assms(2) have split: "xss = ?A @ xss ! i # ?B"
    by (rule id_take_nth_drop)
  from assms(2) have upd: "xss[i := L] = ?A @ L # ?B"
    by (rule upd_conv_take_nth_drop)
  have c: "concat xss = concat ?A @ xss ! i @ concat ?B"
    by (subst split) simp
  from assms(1) have d: "distinct (concat ?A)" "distinct (concat ?B)"
    "set (concat ?A) \<inter> set (xss ! i) = {}" "set (concat ?A) \<inter> set (concat ?B) = {}"
    "set (xss ! i) \<inter> set (concat ?B) = {}"
    unfolding c by auto
  from assms(5) have f: "F \<inter> set (concat ?A) = {}" "F \<inter> set (concat ?B) = {}"
    unfolding c by auto
  have "concat (xss[i := L]) = concat ?A @ L @ concat ?B"
    by (simp add: upd)
  moreover have "set (concat ?A) \<inter> set L = {}" "set L \<inter> set (concat ?B) = {}"
    using assms(4) d f by blast+
  ultimately show "distinct (concat (xss[i := L]))"
    using d assms(3) by auto
  have "set (concat xss) = set (concat ?A) \<union> set (xss ! i) \<union> set (concat ?B)"
    by (subst c) auto
  moreover have "set (concat (xss[i := L])) = set (concat ?A) \<union> set L \<union> set (concat ?B)"
    by (simp add: upd Un_assoc)
  ultimately show "set (concat (xss[i := L])) \<subseteq> set (concat xss) \<union> F"
    using assms(4) by blast
qed

lemma renders_Elem_nodes:
  assumes "corresponds a H h par n (VElem ty ps ds)"
  obtains al ks where "n < length h" "h ! n = ElementNode par (fold_name H (to_DOMString ty)) al ks"
    "a \<longrightarrow> set al = set (stored_attributes H ps) \<and> distinct (map fst al)" "length ks = length ds"
    "\<forall>j<length ds. corresponds a H h (Some n) (ks ! j) (ds ! j)"
    "nodes_of h n (VElem ty ps ds) = n # concat (map (\<lambda>(k, c). nodes_of h k c) (zip ks ds))"
proof -
  from assms obtain al ks where 1: "n < length h" "h ! n = ElementNode par (fold_name H (to_DOMString ty)) al ks"
    "a \<longrightarrow> set al = set (stored_attributes H ps) \<and> distinct (map fst al)" and all2: "list_all2 (corresponds a H h (Some n)) ks ds"
    by (rule renders_ElemE)
  from all2 have len: "length ks = length ds"
    by (simp add: list_all2_lengthD)
  have kids: "\<forall>j<length ds. corresponds a H h (Some n) (ks ! j) (ds ! j)"
    using all2 by (simp add: list_all2_conv_all_nth)
  from 1 have nodes: "nodes_of h n (VElem ty ps ds) = n # concat (map (\<lambda>(k, c). nodes_of h k c) (zip ks ds))"
    by simp
  show thesis
    by (rule that [OF 1(1) 1(2) 1(3) len kids nodes])
qed

lemma child_update:
  assumes r: "corresponds a H h par n (VElem ty ps ds)"
    and dist: "distinct (nodes_of h n (VElem ty ps ds))"
    and i: "i < length ds"
    and h'n: "h' ! n = with_children ((childNodes (h ! n))[i := k']) (h ! n)"
    and fr: "unchanged_outside (insert n (set (nodes_of h (childNodes (h ! n) ! i) (ds ! i)))) h h'"
    and r': "corresponds a H h' (Some n) k' d'"
    and dist': "distinct (nodes_of h' k' d')"
    and sub': "set (nodes_of h' k' d') \<subseteq>
               set (nodes_of h (childNodes (h ! n) ! i) (ds ! i)) \<union> {length h..<length h'}"
  shows "rerendered a H h h' par n (VElem ty ps ds) (VElem ty ps (ds[i := d']))"
proof -
  from r obtain al ks where n: "n < length h"
    and hn: "h ! n = ElementNode par (fold_name H (to_DOMString ty)) al ks"
    and al: "a \<longrightarrow> set al = set (stored_attributes H ps) \<and> distinct (map fst al)"
    and len: "length ks = length ds"
    and kids0: "\<forall>j<length ds. corresponds a H h (Some n) (ks ! j) (ds ! j)"
    and nodes: "nodes_of h n (VElem ty ps ds) = n # concat (map (\<lambda>(k, c). nodes_of h k c) (zip ks ds))"
    by (rule renders_Elem_nodes)
  from kids0 have kids: "\<And>j. j < length ds \<Longrightarrow> corresponds a H h (Some n) (ks ! j) (ds ! j)"
    by simp
  let ?X = "map (\<lambda>(k, c). nodes_of h k c) (zip ks ds)"
  let ?F = "{length h..<length h'}"
  have lenX: "length ?X = length ds" using len by simp
  have Xj: "?X ! j = nodes_of h (ks ! j) (ds ! j)" if "j < length ds" for j
    using that len by simp
  from dist [unfolded nodes] have dX: "distinct (concat ?X)" and nX: "n \<notin> set (concat ?X)"
    by simp_all
  from fr have len': "length h \<le> length h'" by (simp add: unchanged_outside_def)
  have old_bound: "x < length h" if "x \<in> set (concat ?X)" for x
    using renders_bound [OF r, of x, unfolded nodes] that by simp
  have inX: "set (?X ! j) \<subseteq> set (concat ?X)" if "j < length ds" for j
    using that lenX by (intro nth_subset_concat) simp
  have Xi: "nodes_of h (childNodes (h ! n) ! i) (ds ! i) = ?X ! i"
    using Xj [OF i] hn by simp
  have sib: "corresponds a H h' (Some n) (ks ! j) (ds ! j) \<and>
             nodes_of h' (ks ! j) (ds ! j) = nodes_of h (ks ! j) (ds ! j)"
    if j: "j < length ds" "j \<noteq> i" for j
  proof (rule renders_frame [OF kids [OF j(1)] len'])
    have disj: "set (?X ! j) \<inter> set (?X ! i) = {}"
      by (rule distinct_concat_disjoint [OF dX]) (use j i lenX in simp_all)
    show "\<forall>m \<in> set (nodes_of h (ks ! j) (ds ! j)). h' ! m = h ! m"
    proof
      fix m assume m: "m \<in> set (nodes_of h (ks ! j) (ds ! j))"
      with Xj [OF j(1)] have mj: "m \<in> set (?X ! j)" by simp
      with inX [OF j(1)] have mc: "m \<in> set (concat ?X)" by blast
      from disj mj have "m \<notin> set (?X ! i)" by blast
      then have "m \<notin> set (nodes_of h (childNodes (h ! n) ! i) (ds ! i))"
        unfolding Xi .
      moreover from mc nX have "m \<noteq> n" by blast
      ultimately show "h' ! m = h ! m"
        using fr old_bound [OF mc] by (simp add: unchanged_outside_def)
    qed
  qed
  from h'n hn have h'n': "h' ! n = ElementNode par (fold_name H (to_DOMString ty)) al (ks[i := k'])"
    by simp
  have all2: "list_all2 (corresponds a H h' (Some n)) (ks[i := k']) (ds[i := d'])"
    unfolding list_all2_conv_all_nth
  proof (intro conjI allI impI)
    show "length (ks[i := k']) = length (ds[i := d'])" using len by simp
  next
    fix j assume "j < length (ks[i := k'])"
    then have j: "j < length ds" using len by simp
    show "corresponds a H h' (Some n) (ks[i := k'] ! j) (ds[i := d'] ! j)"
      using j i len r' sib [OF j] by (cases "j = i") simp_all
  qed
  let ?L = "nodes_of h' k' d'"
  have X': "map (\<lambda>(k, c). nodes_of h' k c) (zip (ks[i := k']) (ds[i := d'])) = ?X[i := ?L]"
  proof (rule nth_equalityI)
    show "length (map (\<lambda>(k, c). nodes_of h' k c) (zip (ks[i := k']) (ds[i := d']))) = length (?X[i := ?L])"
      using len by simp
  next
    fix j assume "j < length (map (\<lambda>(k, c). nodes_of h' k c) (zip (ks[i := k']) (ds[i := d'])))"
    then have j: "j < length ds" using len by simp
    show "map (\<lambda>(k, c). nodes_of h' k c) (zip (ks[i := k']) (ds[i := d'])) ! j = ?X[i := ?L] ! j"
      using j i len sib [OF j] by (cases "j = i") simp_all
  qed
  have subL: "set ?L \<subseteq> set (?X ! i) \<union> ?F"
    using sub' unfolding Xi .
  have Fdisj: "?F \<inter> set (concat ?X) = {}"
  proof -
    have "x \<notin> ?F" if "x \<in> set (concat ?X)" for x
      using old_bound [OF that] by simp
    then show ?thesis by blast
  qed
  from i lenX have iX: "i < length ?X" by simp
  have d': "distinct (concat (?X[i := ?L]))"
    and s': "set (concat (?X[i := ?L])) \<subseteq> set (concat ?X) \<union> ?F"
    using distinct_concat_update [OF dX iX dist' subL Fdisj] by blast+
  have "n \<notin> ?F" using n by simp
  with s' nX have nX': "n \<notin> set (concat (?X[i := ?L]))"
    by blast
  have nodes': "nodes_of h' n (VElem ty ps (ds[i := d'])) = n # concat (?X[i := ?L])"
    using h'n' X' by simp
  have "corresponds a H h' par n (VElem ty ps (ds[i := d']))"
    using n len' h'n' al all2 by simp
  moreover have "distinct (nodes_of h' n (VElem ty ps (ds[i := d'])))"
    unfolding nodes' using d' nX' by simp
  moreover have "set (nodes_of h' n (VElem ty ps (ds[i := d']))) \<subseteq>
      set (nodes_of h n (VElem ty ps ds)) \<union> ?F"
  proof -
    have "insert n (set (concat (?X[i := ?L]))) \<subseteq> insert n (set (concat ?X)) \<union> ?F"
      using s' by blast
    then show ?thesis unfolding nodes nodes' by (simp only: list.set)
  qed
  moreover have "unchanged_outside (set (nodes_of h n (VElem ty ps ds))) h h'"
  proof (rule unchanged_outside_mono [OF fr])
    have "insert n (set (?X ! i)) \<subseteq> insert n (set (concat ?X))"
      using inX [OF i] by blast
    then show "insert n (set (nodes_of h (childNodes (h ! n) ! i) (ds ! i))) \<subseteq>
        set (nodes_of h n (VElem ty ps ds))"
      unfolding nodes Xi by (simp only: list.set)
  qed
  ultimately show ?thesis by (simp only: rerendered_def simp_thms)
qed

lemma remove_old_attributes_heap:
  "n < length (heap s) \<Longrightarrow> heap s ! n = ElementNode q tg al ks \<Longrightarrow>
   \<exists>s'. remove_old_attributes H (Some n) nps keys s = (Inr (), s') \<and>
     heap s' = (heap s)[n := ElementNode q tg
        (fold (\<lambda>k al. if \<not> js_in k nps then AList.delete (fold_name H k) al else al) keys al) ks]"
proof (induction keys arbitrary: s al)
  case Nil
  then have "(heap s)[n := ElementNode q tg al ks] = heap s"
    by (metis list_update_id)
  then show ?case by (simp add: js_return_def)
next
  case (Cons k keys)
  show ?case
  proof (cases "js_in k nps")
    case True
    with Cons.IH [OF Cons.prems] show ?thesis
      by (simp add: js_bind_def js_return_def)
  next
    case False
    let ?s1 = "s\<lparr>heap := (heap s)[n := ElementNode q tg (AList.delete (fold_name H k) al) ks],
                 log := log s @ [RemoveAttribute n k]\<rparr>"
    from Cons.prems have 1: "removeAttribute H (Some n) k s = (Inr (), ?s1)"
      by (simp add: removeAttribute_def lookup_def)
    from Cons.prems have "n < length (heap ?s1)"
      "heap ?s1 ! n = ElementNode q tg (AList.delete (fold_name H k) al) ks"
      by simp_all
    from Cons.IH [OF this] 1 False show ?thesis
      by (simp add: js_bind_def)
  qed
qed

lemma set_new_attributes_heap:
  "n < length (heap s) \<Longrightarrow> heap s ! n = ElementNode q tg al ks \<Longrightarrow>
   list_all (\<lambda>(k, v). attribute_name_ok H k) kvs \<Longrightarrow>
   \<exists>s'. set_new_attributes H (Some n) ops kvs s = (Inr (), s') \<and>
     heap s' = (heap s)[n := ElementNode q tg
        (fold (\<lambda>(k, v) al. if \<not> js_in k ops \<or> js_get ops k \<noteq> JString v
                             then AList.update (fold_name H k) v al else al) kvs al) ks]"
proof (induction kvs arbitrary: s al)
  case Nil
  then have "(heap s)[n := ElementNode q tg al ks] = heap s"
    by (metis list_update_id)
  then show ?case by (simp add: js_return_def)
next
  case (Cons kv kvs)
  obtain k v where kv: "kv = (k, v)" by (cases kv)
  from Cons.prems(3) have ok: "attribute_name_ok H k"
    and rest: "list_all (\<lambda>(k, v). attribute_name_ok H k) kvs"
    by (simp_all add: kv)
  show ?case
  proof (cases "\<not> js_in k ops \<or> js_get ops k \<noteq> JString v")
    case False
    with Cons.IH [OF Cons.prems(1,2) rest] show ?thesis
      by (simp add: kv js_bind_def js_return_def)
  next
    case True
    let ?s1 = "s\<lparr>heap := (heap s)[n := ElementNode q tg (AList.update (fold_name H k) v al) ks],
                 log := log s @ [SetAttribute n k v]\<rparr>"
    from Cons.prems(1,2) ok have 1: "setAttribute H (Some n) k v s = (Inr (), ?s1)"
      by (simp add: setAttribute_def lookup_def)
    from Cons.prems have "n < length (heap ?s1)"
      "heap ?s1 ! n = ElementNode q tg (AList.update (fold_name H k) v al) ks"
      by simp_all
    from Cons.IH [OF this rest] 1 True show ?thesis
      by (simp add: kv js_bind_def)
  qed
qed

lemma map_of_fold_delete:
  "map_of (fold (\<lambda>k al. if P k then AList.delete (f k) al else al) keys al) x =
     (if \<exists>k \<in> set keys. P k \<and> f k = x then None else map_of al x)"
  by (induction keys arbitrary: al) (auto simp: delete_conv')

lemma distinct_fold_delete:
  "distinct (map fst al) \<Longrightarrow>
   distinct (map fst (fold (\<lambda>k al. if P k then AList.delete (f k) al else al) keys al))"
  by (induction keys arbitrary: al) (simp_all add: distinct_delete)

lemma map_of_fold_update_other:
  "x \<notin> (\<lambda>(k, v). f k) ` set kvs \<Longrightarrow>
   map_of (fold (\<lambda>(k, v) al. if C k v then AList.update (f k) v al else al) kvs al) x =
     map_of al x"
  by (induction kvs arbitrary: al) (auto simp: update_conv')

lemma map_of_fold_update:
  "distinct (map (\<lambda>(k, v). f k) kvs) \<Longrightarrow> (k, v) \<in> set kvs \<Longrightarrow>
   map_of (fold (\<lambda>(k, v) al. if C k v then AList.update (f k) v al else al) kvs al) (f k) =
     (if C k v then Some v else map_of al (f k))"
proof (induction kvs arbitrary: al)
  case Nil
  then show ?case by simp
next
  case (Cons kv kvs)
  obtain k' v' where kv: "kv = (k', v')" by (cases kv)
  from Cons.prems(1) have d: "distinct (map (\<lambda>(k, v). f k) kvs)"
    and fresh: "f k' \<notin> (\<lambda>(k, v). f k) ` set kvs"
    by (simp_all add: kv)
  let ?al = "if C k' v' then AList.update (f k') v' al else al"
  show ?case
  proof (cases "(k, v) = (k', v')")
    case True
    with fresh have "f k \<notin> (\<lambda>(k, v). f k) ` set kvs" by simp
    from map_of_fold_update_other [OF this, of C ?al] True show ?thesis
      by (simp add: kv update_conv')
  next
    case False
    with Cons.prems(2) have mem: "(k, v) \<in> set kvs" by (auto simp: kv)
    with fresh have "f k \<noteq> f k'" by force
    with Cons.IH [OF d mem, of ?al] show ?thesis
      by (simp add: kv update_conv')
  qed
qed

lemma distinct_fold_update:
  "distinct (map fst al) \<Longrightarrow>
   distinct (map fst (fold (\<lambda>(k, v) al. if C k v then AList.update (f k) v al else al) kvs al))"
  by (induction kvs arbitrary: al) (auto simp: distinct_update)

lemma map_fst_stored:
  "map fst (map (\<lambda>(k, v). (f k, v)) ps) = map (\<lambda>(k, v). f k) ps"
  by (induction ps) auto

lemma diff_attributes:
  assumes n: "n < length (heap s)" "heap s ! n = ElementNode q tg al ks"
    and ok: "list_all (\<lambda>(k, v). attribute_name_ok H k) nps"
  shows "\<exists>s' al'. js_bind (remove_old_attributes H (Some n) nps (map fst ops))
                     (\<lambda>_. set_new_attributes H (Some n) ops nps) s = (Inr (), s') \<and>
      heap s' = (heap s)[n := ElementNode q tg al' ks] \<and>
      (set al = set (stored_attributes H ops) \<and> distinct (map fst al) \<and>
       distinct (map (\<lambda>(k, v). fold_name H k) ops) \<and>
       distinct (map (\<lambda>(k, v). fold_name H k) nps) \<and>
       list_all (\<lambda>(k, v). k \<notin> set object_prototype_keys) ops \<longrightarrow>
       set al' = set (stored_attributes H nps) \<and> distinct (map fst al'))"
proof -
  let ?f = "fold_name H"
  let ?F = "map (\<lambda>(k, v). (?f k, v))"
  let ?al1 = "fold (\<lambda>k al. if \<not> js_in k nps then AList.delete (?f k) al else al) (map fst ops) al"
  let ?al2 = "fold (\<lambda>(k, v) al. if \<not> js_in k ops \<or> js_get ops k \<noteq> JString v
                             then AList.update (?f k) v al else al) nps ?al1"
  from remove_old_attributes_heap [OF n] obtain s1
    where c1: "remove_old_attributes H (Some n) nps (map fst ops) s = (Inr (), s1)"
      and h1: "heap s1 = (heap s)[n := ElementNode q tg ?al1 ks]"
    by blast
  from h1 n have "n < length (heap s1)" "heap s1 ! n = ElementNode q tg ?al1 ks"
    by simp_all
  from set_new_attributes_heap [OF this ok] obtain s2
    where c2: "set_new_attributes H (Some n) ops nps s1 = (Inr (), s2)"
      and h2: "heap s2 = (heap s1)[n := ElementNode q tg ?al2 ks]"
    by blast
  have attrs: "set ?al2 = set (stored_attributes H nps) \<and> distinct (map fst ?al2)"
    if al: "set al = set (stored_attributes H ops)" "distinct (map fst al)"
      and ops: "distinct (map (\<lambda>(k, v). ?f k) ops)"
      and nps: "distinct (map (\<lambda>(k, v). ?f k) nps)"
      and plain: "list_all (\<lambda>(k, v). k \<notin> set object_prototype_keys) ops"
  proof -
    have so: "set (stored_attributes H ops) = set (?F ops)"
      and sn: "set (stored_attributes H nps) = set (?F nps)"
      using ops nps by (simp_all add: stored_attributes_apart)
    have dFo: "distinct (map fst (?F ops))" and dFn: "distinct (map fst (?F nps))"
      unfolding map_fst_stored by (rule ops, rule nps)
    from al so dFo have mo: "map_of al = map_of (?F ops)"
      by (simp add: map_of_inject_set)
    have d2: "distinct (map fst ?al2)"
      by (intro distinct_fold_update distinct_fold_delete al)
    have own: "map_of (?F ps) (?f k) = Some v"
      if "distinct (map fst (?F ps))" "(k, v) \<in> set ps" for ps k v
    proof -
      from that(2) have "(?f k, v) \<in> set (?F ps)" by force
      with that(1) show ?thesis by (rule map_of_is_SomeI)
    qed
    have "map_of ?al2 x = map_of (?F nps) x" for x
    proof (cases "x \<in> (\<lambda>(k, v). ?f k) ` set nps")
      case False
      then have "x \<notin> fst ` set (?F nps)" by force
      then have none: "map_of (?F nps) x = None" by (simp add: map_of_eq_None_iff)
      have "map_of ?al1 x = None"
      proof (cases "map_of al x")
        case None
        then show ?thesis by (simp add: map_of_fold_delete)
      next
        case (Some v)
        with mo have "map_of (?F ops) x = Some v" by simp
        then have "(x, v) \<in> set (?F ops)" by (rule map_of_SomeD)
        then obtain k where k: "(k, v) \<in> set ops" "x = ?f k" by auto
        from k False have "k \<notin> fst ` set nps" by force
        moreover from k(1) plain have "k \<notin> set object_prototype_keys"
          by (auto simp: list_all_iff)
        ultimately have "\<not> js_in k nps" by (simp add: js_in_def)
        moreover from k(1) have "k \<in> set (map fst ops)" by force
        ultimately have "\<exists>k \<in> set (map fst ops). \<not> js_in k nps \<and> ?f k = x"
          using k(2) by blast
        then show ?thesis by (simp only: map_of_fold_delete if_True)
      qed
      with none show ?thesis
        by (simp add: map_of_fold_update_other [OF False])
    next
      case True
      then obtain k v where kv: "(k, v) \<in> set nps" and x: "x = ?f k" by auto
      from own [OF dFn kv] have new: "map_of (?F nps) x = Some v" by (simp add: x)
      have jin: "js_in k nps" using kv by (rule js_in_own)
      have upd: "map_of ?al2 x =
          (if \<not> js_in k ops \<or> js_get ops k \<noteq> JString v then Some v else map_of ?al1 x)"
        unfolding x by (rule map_of_fold_update [OF nps kv])
      show ?thesis
      proof (cases "\<not> js_in k ops \<or> js_get ops k \<noteq> JString v")
        case True
        with upd new show ?thesis by simp
      next
        case False
        then have "js_get ops k = JString v" by simp
        then have "map_of ops k = Some v"
          by (auto simp: js_get_def split: option.splits if_splits)
        then have ko: "(k, v) \<in> set ops" by (rule map_of_SomeD)
        from own [OF dFo ko] mo have old: "map_of al x = Some v" by (simp add: x)
        have "\<not> (\<exists>k' \<in> set (map fst ops). \<not> js_in k' nps \<and> ?f k' = x)"
        proof
          assume "\<exists>k' \<in> set (map fst ops). \<not> js_in k' nps \<and> ?f k' = x"
          then obtain k' v' where k': "(k', v') \<in> set ops" "\<not> js_in k' nps" "?f k' = ?f k"
            unfolding x by auto
          from ops have "inj_on (\<lambda>(k, v). ?f k) (set ops)" by (simp add: distinct_map)
          from inj_onD [OF this _ k'(1) ko] k'(3) have "k' = k" by simp
          with k'(2) jin show False by simp
        qed
        then have "map_of ?al1 x = map_of al x"
          by (simp only: map_of_fold_delete if_False)
        with False upd old new show ?thesis by simp
      qed
    qed
    then have "map_of ?al2 = map_of (?F nps)" by (rule ext)
    with d2 dFn have "set ?al2 = set (?F nps)"
      by (simp add: map_of_inject_set)
    with d2 sn show ?thesis by simp
  qed
  have "heap s2 = (heap s)[n := ElementNode q tg ?al2 ks]"
    using h1 h2 by simp
  moreover have "js_bind (remove_old_attributes H (Some n) nps (map fst ops))
                     (\<lambda>_. set_new_attributes H (Some n) ops nps) s = (Inr (), s2)"
    using c1 c2 by (simp add: js_bind_def)
  ultimately show ?thesis using attrs by blast
qed

text \<open>Changing the tag and attribute cell of a rendered element.\<close>

lemma root_update:
  assumes r: "corresponds a H h par n (VElem ty ps cs)"
    and dist: "distinct (nodes_of h n (VElem ty ps cs))"
    and h': "h' = h[n := ElementNode par (fold_name H (to_DOMString ty')) al' (childNodes (h ! n))]"
    and al': "a \<longrightarrow> set al' = set (stored_attributes H ps') \<and> distinct (map fst al')"
  shows "rerendered a H h h' par n (VElem ty ps cs) (VElem ty' ps' cs)"
    and "childNodes (h' ! n) = childNodes (h ! n)"
proof -
  from r obtain al ks where n: "n < length h"
    and hn: "h ! n = ElementNode par (fold_name H (to_DOMString ty)) al ks"
    and len: "length ks = length cs"
    and kids0: "\<forall>j<length cs. corresponds a H h (Some n) (ks ! j) (cs ! j)"
    and nodes: "nodes_of h n (VElem ty ps cs) = n # concat (map (\<lambda>(k, c). nodes_of h k c) (zip ks cs))"
    by (rule renders_Elem_nodes)
  let ?X = "map (\<lambda>(k, c). nodes_of h k c) (zip ks cs)"
  from dist [unfolded nodes] have dX: "distinct (concat ?X)" and nX: "n \<notin> set (concat ?X)"
    by simp_all
  from h' hn n have h'n: "h' ! n = ElementNode par (fold_name H (to_DOMString ty')) al' ks"
    and len': "length h' = length h"
    by simp_all
  have kid: "corresponds a H h' (Some n) (ks ! j) (cs ! j) \<and>
             nodes_of h' (ks ! j) (cs ! j) = nodes_of h (ks ! j) (cs ! j)"
    if j: "j < length cs" for j
  proof (rule renders_frame)
    show "corresponds a H h (Some n) (ks ! j) (cs ! j)" using kids0 j by simp
    show "length h \<le> length h'" using len' by simp
    have "?X ! j = nodes_of h (ks ! j) (cs ! j)" using j len by simp
    moreover have "set (?X ! j) \<subseteq> set (concat ?X)"
      using j len by (intro nth_subset_concat) simp
    ultimately have "n \<notin> set (nodes_of h (ks ! j) (cs ! j))"
      using nX by auto
    then have "n \<noteq> m" if "m \<in> set (nodes_of h (ks ! j) (cs ! j))" for m
      using that by blast
    then show "\<forall>m \<in> set (nodes_of h (ks ! j) (cs ! j)). h' ! m = h ! m"
      by (simp add: h')
  qed
  have all2: "list_all2 (corresponds a H h' (Some n)) ks cs"
    using kid len by (simp add: list_all2_conv_all_nth)
  have X': "map (\<lambda>(k, c). nodes_of h' k c) (zip ks cs) = ?X"
    using kid len by (intro nth_equalityI) simp_all
  have nodes': "nodes_of h' n (VElem ty' ps' cs) = n # concat ?X"
    using h'n by (simp add: X')
  have "corresponds a H h' par n (VElem ty' ps' cs)"
    using n len' h'n al' all2 by simp
  moreover have "distinct (nodes_of h' n (VElem ty' ps' cs))"
    unfolding nodes' using dX nX by simp
  moreover have "set (nodes_of h' n (VElem ty' ps' cs)) \<subseteq>
      set (nodes_of h n (VElem ty ps cs)) \<union> {length h..<length h'}"
    unfolding nodes nodes' by blast
  moreover have "unchanged_outside (set (nodes_of h n (VElem ty ps cs))) h h'"
    unfolding nodes by (simp add: unchanged_outside_def h')
  ultimately show "rerendered a H h h' par n (VElem ty ps cs) (VElem ty' ps' cs)"
    by (simp only: rerendered_def simp_thms)
  show "childNodes (h' ! n) = childNodes (h ! n)"
    using h'n hn by simp
qed

lemma append_new_children_eq: "append_new_children H (Some el) cs = append_children H el cs"
  by (induction cs) simp_all

lemma remove1_last: "distinct xs \<Longrightarrow> xs \<noteq> [] \<Longrightarrow> remove1 (last xs) xs = butlast xs"
  by (induction xs) (auto simp: remove1_idem)

lemma remove_extra_children_ok:
  "n < length (heap s) \<Longrightarrow> heap s ! n = ElementNode q tg al ks \<Longrightarrow> distinct ks \<Longrightarrow>
   \<forall>k \<in> set ks. k < length (heap s) \<and> k \<noteq> n \<Longrightarrow>
   \<exists>s'. remove_extra_children (Some n) newLen s = (Inr (), s') \<and>
     length (heap s') = length (heap s) \<and>
     heap s' ! n = ElementNode q tg al (take newLen ks) \<and>
     (\<forall>k \<in> set (drop newLen ks). heap s' ! k = with_parent None (heap s ! k)) \<and>
     (\<forall>i<length (heap s). i \<noteq> n \<longrightarrow> i \<notin> set (drop newLen ks) \<longrightarrow> heap s' ! i = heap s ! i)"
proof (induction "length ks - newLen" arbitrary: s ks)
  case 0
  then have "get_childCount (Some n) s = (Inr (length ks), s)"
    by (simp add: get_childCount_def lookup_def)
  with 0 show ?case
    by (simp add: remove_extra_children.simps [of _ _ s])
next
  case (Suc d)
  from Suc.hyps(2) have lt: "newLen < length ks" and ne: "ks \<noteq> []" by auto
  let ?c = "last ks"
  from ne have cin: "?c \<in> set ks" by simp
  with Suc.prems(4) have c: "?c < length (heap s)" "?c \<noteq> n" by auto
  have bl: "remove1 ?c ks = butlast ks"
    using Suc.prems(3) ne by (rule remove1_last)
  let ?h1 = "(heap s)[n := ElementNode q tg al (butlast ks), ?c := with_parent None (heap s ! ?c)]"
  let ?s1 = "s\<lparr>heap := ?h1, log := log s @ [RemoveChild n ?c]\<rparr>"
  have g1: "get_childCount (Some n) s = (Inr (length ks), s)"
    using Suc.prems(1,2) by (simp add: get_childCount_def lookup_def)
  have g2: "get_lastChild (Some n) s = (Inr (Some ?c), s)"
    using Suc.prems(1,2) ne by (simp add: get_lastChild_def lookup_def)
  have g3: "removeChild (Some n) (Some ?c) s = (Inr (), ?s1)"
    using Suc.prems(1,2) cin c bl by (simp add: removeChild_def lookup_def Let_def)
  have unfold: "remove_extra_children (Some n) newLen s = remove_extra_children (Some n) newLen ?s1"
    using g1 g2 g3 lt by (simp add: remove_extra_children.simps [of _ _ s])
  have cnot: "?c \<notin> set (butlast ks)"
    using Suc.prems(3) ne by (metis append_butlast_last_id distinct_append disjoint_iff list.set_intros(1))
  have p1: "d = length (butlast ks) - newLen" using Suc.hyps(2) by simp
  have p2: "n < length (heap ?s1)" using Suc.prems(1) by simp
  have p3: "heap ?s1 ! n = ElementNode q tg al (butlast ks)"
    using Suc.prems(1) c by simp
  have p4: "distinct (butlast ks)" using Suc.prems(3) by (rule distinct_butlast)
  have p5: "\<forall>k \<in> set (butlast ks). k < length (heap ?s1) \<and> k \<noteq> n"
    using Suc.prems(4) by (auto dest: in_set_butlastD)
  from Suc.hyps(1) [OF p1 p2 p3 p4 p5] obtain s'
    where r: "remove_extra_children (Some n) newLen ?s1 = (Inr (), s')"
      and len: "length (heap s') = length (heap ?s1)"
      and hn: "heap s' ! n = ElementNode q tg al (take newLen (butlast ks))"
      and dropped: "\<forall>k \<in> set (drop newLen (butlast ks)). heap s' ! k = with_parent None (heap ?s1 ! k)"
      and frame: "\<forall>i<length (heap ?s1). i \<noteq> n \<longrightarrow> i \<notin> set (drop newLen (butlast ks)) \<longrightarrow>
          heap s' ! i = heap ?s1 ! i"
    by blast
  have tk: "take newLen (butlast ks) = take newLen ks"
    using lt by (simp add: take_butlast)
  have dr: "drop newLen ks = drop newLen (butlast ks) @ [?c]"
  proof -
    have "ks = butlast ks @ [?c]" using ne by simp
    then have "drop newLen ks = drop newLen (butlast ks @ [?c])" by simp
    also have "\<dots> = drop newLen (butlast ks) @ [?c]" using lt by simp
    finally show ?thesis .
  qed
  have in_bl: "k \<in> set (butlast ks)" if "k \<in> set (drop newLen (butlast ks))" for k
    using that by (rule in_set_dropD)
  have "\<forall>k \<in> set (drop newLen ks). heap s' ! k = with_parent None (heap s ! k)"
  proof
    fix k assume "k \<in> set (drop newLen ks)"
    then consider "k \<in> set (drop newLen (butlast ks))" | "k = ?c"
      unfolding dr by auto
    then show "heap s' ! k = with_parent None (heap s ! k)"
    proof cases
      case 1
      with in_bl have kb: "k \<in> set (butlast ks)" by blast
      with cnot have "k \<noteq> ?c" by blast
      moreover from kb p5 have "k \<noteq> n" "k < length (heap s)" by auto
      ultimately have "heap ?s1 ! k = heap s ! k" by simp
      with dropped 1 show ?thesis by simp
    next
      case 2
      from cnot in_bl have "?c \<notin> set (drop newLen (butlast ks))" by blast
      with frame c have "heap s' ! ?c = heap ?s1 ! ?c" by simp
      with c 2 show ?thesis by simp
    qed
  qed
  moreover have "\<forall>i<length (heap s). i \<noteq> n \<longrightarrow> i \<notin> set (drop newLen ks) \<longrightarrow> heap s' ! i = heap s ! i"
  proof (intro allI impI)
    fix i assume i: "i < length (heap s)" "i \<noteq> n" "i \<notin> set (drop newLen ks)"
    then have "i \<noteq> ?c" "i \<notin> set (drop newLen (butlast ks))" unfolding dr by auto
    with frame i have "heap s' ! i = heap ?s1 ! i" by simp
    with i \<open>i \<noteq> ?c\<close> show "heap s' ! i = heap s ! i" by simp
  qed
  ultimately show ?case
    using unfold r len hn tk by simp
qed

lemma nodes_of_root_mem: "n \<in> set (nodes_of h n d)"
  using nodes_of_hd [of h n d] by auto

lemma rendered_children_distinct:
  assumes r: "corresponds a H h par n (VElem ty ps ds)"
    and dist: "distinct (nodes_of h n (VElem ty ps ds))"
  shows "distinct (childNodes (h ! n))"
    and "\<forall>k \<in> set (childNodes (h ! n)). k < length h \<and> k \<noteq> n"
proof -
  from r obtain al ks where n: "n < length h"
    and hn: "h ! n = ElementNode par (fold_name H (to_DOMString ty)) al ks"
    and len: "length ks = length ds"
    and kids0: "\<forall>j<length ds. corresponds a H h (Some n) (ks ! j) (ds ! j)"
    and nodes: "nodes_of h n (VElem ty ps ds) = n # concat (map (\<lambda>(k, c). nodes_of h k c) (zip ks ds))"
    by (rule renders_Elem_nodes)
  let ?X = "map (\<lambda>(k, c). nodes_of h k c) (zip ks ds)"
  from dist [unfolded nodes] have dX: "distinct (concat ?X)" and nX: "n \<notin> set (concat ?X)"
    by simp_all
  have root: "ks ! j \<in> set (?X ! j)" if "j < length ks" for j
    using that len by (simp add: nodes_of_root_mem)
  have inX: "set (?X ! j) \<subseteq> set (concat ?X)" if "j < length ks" for j
    using that len by (intro nth_subset_concat) simp
  have "distinct ks"
    unfolding distinct_conv_nth
  proof (intro allI impI)
    fix i j assume ij: "i < length ks" "j < length ks" "i \<noteq> j"
    have "set (?X ! i) \<inter> set (?X ! j) = {}"
      by (rule distinct_concat_disjoint [OF dX]) (use ij len in simp_all)
    with root [OF ij(1)] root [OF ij(2)] show "ks ! i \<noteq> ks ! j" by auto
  qed
  moreover have "\<forall>k \<in> set ks. k < length h \<and> k \<noteq> n"
  proof
    fix k assume "k \<in> set ks"
    then obtain j where j: "j < length ks" "k = ks ! j" by (auto simp: in_set_conv_nth)
    with kids0 len have "corresponds a H h (Some n) k (ds ! j)" by simp
    then have "k < length h" by (auto dest: renders_root)
    moreover from root [OF j(1)] inX [OF j(1)] nX j(2) have "k \<noteq> n" by blast
    ultimately show "k < length h \<and> k \<noteq> n" by simp
  qed
  ultimately show "distinct (childNodes (h ! n))"
    and "\<forall>k \<in> set (childNodes (h ! n)). k < length h \<and> k \<noteq> n"
    using hn by simp_all
qed

lemma append_children_live:
  assumes r: "corresponds a H (heap s) par n (VElem ty ps cs1)"
    and dist: "distinct (nodes_of (heap s) n (VElem ty ps cs1))"
    and acc: "list_all (host_accepts H) cs2"
  shows "\<exists>s' ms. append_new_children H (Some n) cs2 s = (Inr (), s') \<and>
      rerendered a H (heap s) (heap s') par n (VElem ty ps cs1) (VElem ty ps (cs1 @ cs2)) \<and>
      childNodes (heap s' ! n) = childNodes (heap s ! n) @ ms \<and>
      length ms = length cs2 \<and> (\<forall>m \<in> set ms. length (heap s) \<le> m) \<and>
      list_all2 (renders H (heap s') (Some n)) ms cs2"
proof -
  let ?h = "heap s"
  from r obtain al ks where n: "n < length ?h"
    and hn: "?h ! n = ElementNode par (fold_name H (to_DOMString ty)) al ks"
    and al: "a \<longrightarrow> set al = set (stored_attributes H ps) \<and> distinct (map fst al)"
    and len: "length ks = length cs1"
    and kids0: "\<forall>j<length cs1. corresponds a H ?h (Some n) (ks ! j) (cs1 ! j)"
    and nodes: "nodes_of ?h n (VElem ty ps cs1) = n # concat (map (\<lambda>(k, c). nodes_of ?h k c) (zip ks cs1))"
    by (rule renders_Elem_nodes)
  let ?X = "map (\<lambda>(k, c). nodes_of ?h k c) (zip ks cs1)"
  from dist [unfolded nodes] have dX: "distinct (concat ?X)" and nX: "n \<notin> set (concat ?X)"
    by simp_all
  from createTree_append_children_ok(2) [of H cs2 n a] acc n hn obtain s' ms
    where run: "append_children H n cs2 s = (Inr (), s')"
      and u: "unchanged_outside {n} ?h (heap s')"
      and h'n: "heap s' ! n = ElementNode par (fold_name H (to_DOMString ty)) al (ks @ ms)"
      and rms: "list_all2 (corresponds a H (heap s') (Some n)) ms cs2"
      and nms: "concat (map (\<lambda>(k, c). nodes_of (heap s') k c) (zip ms cs2)) = [length ?h..<length (heap s')]"
    by blast
  let ?h' = "heap s'"
  from createTree_append_children_ok(2) [of H cs2 n True] acc n hn obtain s'' ms'
    where "append_children H n cs2 s = (Inr (), s'')"
      and "heap s'' ! n = ElementNode par (fold_name H (to_DOMString ty)) al (ks @ ms')"
      and "list_all2 (renders H (heap s'') (Some n)) ms' cs2"
    by blast
  with run h'n have full: "list_all2 (renders H ?h' (Some n)) ms cs2" by simp
  from u have len': "length ?h \<le> length ?h'" by (simp add: unchanged_outside_def)
  from rms have lms: "length ms = length cs2" by (rule list_all2_lengthD)
  have old_bound: "x < length ?h" if "x \<in> set (concat ?X)" for x
    using renders_bound [OF r, of x, unfolded nodes] that by simp
  have fresh: "\<forall>m \<in> set ms. length ?h \<le> m"
  proof
    fix m assume "m \<in> set ms"
    then obtain j where j: "j < length ms" "m = ms ! j" by (auto simp: in_set_conv_nth)
    let ?Y = "map (\<lambda>(k, c). nodes_of ?h' k c) (zip ms cs2)"
    from j lms have "?Y ! j = nodes_of ?h' m (cs2 ! j)" by simp
    then have "m \<in> set (?Y ! j)" by (simp add: nodes_of_root_mem)
    moreover have "set (?Y ! j) \<subseteq> set (concat ?Y)"
      using j lms by (intro nth_subset_concat) simp
    ultimately have "m \<in> set [length ?h..<length ?h']" unfolding nms [symmetric] by blast
    then show "length ?h \<le> m" by simp
  qed
  have kid: "corresponds a H ?h' (Some n) (ks ! j) (cs1 ! j) \<and>
             nodes_of ?h' (ks ! j) (cs1 ! j) = nodes_of ?h (ks ! j) (cs1 ! j)"
    if j: "j < length cs1" for j
  proof (rule renders_frame)
    show "corresponds a H ?h (Some n) (ks ! j) (cs1 ! j)" using kids0 j by simp
    show "length ?h \<le> length ?h'" by (rule len')
    have Xj: "?X ! j = nodes_of ?h (ks ! j) (cs1 ! j)" using j len by simp
    have sub: "set (?X ! j) \<subseteq> set (concat ?X)"
      using j len by (intro nth_subset_concat) simp
    show "\<forall>m \<in> set (nodes_of ?h (ks ! j) (cs1 ! j)). ?h' ! m = ?h ! m"
    proof
      fix m assume "m \<in> set (nodes_of ?h (ks ! j) (cs1 ! j))"
      then have "m \<in> set (?X ! j)" unfolding Xj .
      with sub have mc: "m \<in> set (concat ?X)" by blast
      with nX have "m \<noteq> n" by blast
      with u old_bound [OF mc] show "?h' ! m = ?h ! m"
        by (simp add: unchanged_outside_def)
    qed
  qed
  have "list_all2 (corresponds a H ?h' (Some n)) ks cs1"
    using kid len by (simp add: list_all2_conv_all_nth)
  from this rms have all2: "list_all2 (corresponds a H ?h' (Some n)) (ks @ ms) (cs1 @ cs2)"
    by (rule list_all2_appendI)
  have X': "map (\<lambda>(k, c). nodes_of ?h' k c) (zip ks cs1) = ?X"
    using kid len by (intro nth_equalityI) simp_all
  have nodes': "nodes_of ?h' n (VElem ty ps (cs1 @ cs2)) = n # (concat ?X @ [length ?h..<length ?h'])"
    using h'n len by (simp add: X' nms)
  have "corresponds a H ?h' par n (VElem ty ps (cs1 @ cs2))"
    using n len' h'n al all2 by simp
  moreover have "distinct (nodes_of ?h' n (VElem ty ps (cs1 @ cs2)))"
  proof -
    have "x \<notin> set [length ?h..<length ?h']" if "x \<in> set (concat ?X)" for x
      using old_bound [OF that] by simp
    then have "set (concat ?X) \<inter> set [length ?h..<length ?h'] = {}" by blast
    with dX have "distinct (concat ?X @ [length ?h..<length ?h'])"
      by (simp only: distinct_append distinct_upt simp_thms)
    moreover have "n \<notin> set [length ?h..<length ?h']" using n by simp
    with nX have "n \<notin> set (concat ?X @ [length ?h..<length ?h'])"
      by (simp only: set_append Un_iff simp_thms)
    ultimately show ?thesis unfolding nodes' by (simp only: distinct.simps simp_thms)
  qed
  moreover have "set (nodes_of ?h' n (VElem ty ps (cs1 @ cs2))) \<subseteq>
      set (nodes_of ?h n (VElem ty ps cs1)) \<union> {length ?h..<length ?h'}"
  proof -
    have "set [length ?h..<length ?h'] = {length ?h..<length ?h'}" by simp
    then show ?thesis unfolding nodes nodes' by (simp only: list.set set_append) blast
  qed
  moreover have "unchanged_outside (set (nodes_of ?h n (VElem ty ps cs1))) ?h ?h'"
    by (rule unchanged_outside_mono [OF u]) (simp add: nodes)
  ultimately have "rerendered a H ?h ?h' par n (VElem ty ps cs1) (VElem ty ps (cs1 @ cs2))"
    by (simp only: rerendered_def simp_thms)
  moreover have "childNodes (?h' ! n) = childNodes (?h ! n) @ ms"
    using h'n hn by simp
  ultimately show ?thesis
    using run lms fresh full by (auto simp: append_new_children_eq)
qed

lemma remove_extra_children_live:
  assumes r: "corresponds a H (heap s) par n (VElem ty ps (cs1 @ cs2))"
    and dist: "distinct (nodes_of (heap s) n (VElem ty ps (cs1 @ cs2)))"
  shows "\<exists>s'. remove_extra_children (Some n) (length cs1) s = (Inr (), s') \<and>
      rerendered a H (heap s) (heap s') par n (VElem ty ps (cs1 @ cs2)) (VElem ty ps cs1) \<and>
      childNodes (heap s' ! n) = take (length cs1) (childNodes (heap s ! n)) \<and>
      (\<forall>k \<in> set (drop (length cs1) (childNodes (heap s ! n))). parentNode (heap s' ! k) = None)"
proof -
  let ?h = "heap s" and ?l = "length cs1" and ?ds = "cs1 @ cs2"
  from r obtain al ks where n: "n < length ?h"
    and hn: "?h ! n = ElementNode par (fold_name H (to_DOMString ty)) al ks"
    and al: "a \<longrightarrow> set al = set (stored_attributes H ps) \<and> distinct (map fst al)"
    and len: "length ks = length ?ds"
    and kids0: "\<forall>j<length ?ds. corresponds a H ?h (Some n) (ks ! j) (?ds ! j)"
    and nodes: "nodes_of ?h n (VElem ty ps ?ds) = n # concat (map (\<lambda>(k, c). nodes_of ?h k c) (zip ks ?ds))"
    by (rule renders_Elem_nodes)
  let ?X = "map (\<lambda>(k, c). nodes_of ?h k c) (zip ks ?ds)"
  from dist [unfolded nodes] have dX: "distinct (concat ?X)" and nX: "n \<notin> set (concat ?X)"
    by simp_all
  from rendered_children_distinct [OF r dist] hn
  have dks: "distinct ks" and bks: "\<forall>k \<in> set ks. k < length ?h \<and> k \<noteq> n"
    by simp_all
  from remove_extra_children_ok [OF n hn dks bks, of ?l] obtain s'
    where run: "remove_extra_children (Some n) ?l s = (Inr (), s')"
      and len': "length (heap s') = length ?h"
      and h'n: "heap s' ! n = ElementNode par (fold_name H (to_DOMString ty)) al (take ?l ks)"
      and dropped: "\<forall>k \<in> set (drop ?l ks). heap s' ! k = with_parent None (?h ! k)"
      and frame: "\<forall>i<length ?h. i \<noteq> n \<longrightarrow> i \<notin> set (drop ?l ks) \<longrightarrow> heap s' ! i = ?h ! i"
    by blast
  let ?h' = "heap s'"
  have old_bound: "x < length ?h" if "x \<in> set (concat ?X)" for x
    using renders_bound [OF r, of x, unfolded nodes] that by simp
  have root: "ks ! j \<in> set (?X ! j)" if "j < length ks" for j
    using that len by (simp add: nodes_of_root_mem)
  have inX: "set (?X ! j) \<subseteq> set (concat ?X)" if "j < length ks" for j
    using that len by (intro nth_subset_concat) simp
  have kid: "corresponds a H ?h' (Some n) (ks ! j) (cs1 ! j) \<and>
             nodes_of ?h' (ks ! j) (cs1 ! j) = nodes_of ?h (ks ! j) (cs1 ! j)"
    if j: "j < ?l" for j
  proof (rule renders_frame)
    from j have jl: "j < length ?ds" "j < length ks" using len by simp_all
    from j have dsj: "?ds ! j = cs1 ! j" by (simp add: nth_append)
    show "corresponds a H ?h (Some n) (ks ! j) (cs1 ! j)" using kids0 jl dsj by auto
    show "length ?h \<le> length ?h'" using len' by simp
    have Xj: "?X ! j = nodes_of ?h (ks ! j) (cs1 ! j)" using jl dsj by simp
    show "\<forall>m \<in> set (nodes_of ?h (ks ! j) (cs1 ! j)). ?h' ! m = ?h ! m"
    proof
      fix m assume "m \<in> set (nodes_of ?h (ks ! j) (cs1 ! j))"
      then have mj: "m \<in> set (?X ! j)" unfolding Xj .
      with inX [OF jl(2)] have mc: "m \<in> set (concat ?X)" by blast
      with nX have mn: "m \<noteq> n" by blast
      have "m \<notin> set (drop ?l ks)"
      proof
        assume "m \<in> set (drop ?l ks)"
        then obtain j' where j': "j' < length ks" "?l \<le> j'" "m = ks ! j'"
          by (auto simp: in_set_conv_nth) (metis add.commute le_add2 less_diff_conv)
        have "set (?X ! j) \<inter> set (?X ! j') = {}"
          by (rule distinct_concat_disjoint [OF dX]) (use j j' jl len in simp_all)
        with mj root [OF j'(1)] j'(3) show False by blast
      qed
      with frame mn old_bound [OF mc] show "?h' ! m = ?h ! m" by simp
    qed
  qed
  have ltk: "length (take ?l ks) = ?l" using len by simp
  have all2: "list_all2 (corresponds a H ?h' (Some n)) (take ?l ks) cs1"
    using kid ltk by (simp add: list_all2_conv_all_nth)
  have X': "map (\<lambda>(k, c). nodes_of ?h' k c) (zip (take ?l ks) cs1) = take ?l ?X"
    using kid len by (intro nth_equalityI) (simp_all add: nth_append)
  have cX: "concat ?X = concat (take ?l ?X) @ concat (drop ?l ?X)"
    by (metis append_take_drop_id concat_append)
  have nodes': "nodes_of ?h' n (VElem ty ps cs1) = n # concat (take ?l ?X)"
    using h'n by (simp add: X')
  have "corresponds a H ?h' par n (VElem ty ps cs1)"
    using n len' h'n al all2 by simp
  moreover have "distinct (nodes_of ?h' n (VElem ty ps cs1))"
  proof -
    from dX have "distinct (concat (take ?l ?X))"
      unfolding cX by (simp only: distinct_append)
    moreover from nX have "n \<notin> set (concat (take ?l ?X))"
      unfolding cX by (simp only: set_append Un_iff) blast
    ultimately show ?thesis unfolding nodes' by (simp only: distinct.simps simp_thms)
  qed
  moreover have "set (nodes_of ?h' n (VElem ty ps cs1)) \<subseteq>
      set (nodes_of ?h n (VElem ty ps ?ds)) \<union> {length ?h..<length ?h'}"
    unfolding nodes nodes' cX by (simp only: list.set set_append) blast
  moreover have "unchanged_outside (set (nodes_of ?h n (VElem ty ps ?ds))) ?h ?h'"
    unfolding unchanged_outside_def
  proof (intro conjI allI impI)
    show "length ?h \<le> length ?h'" using len' by simp
  next
    fix i assume i: "i < length ?h" "i \<notin> set (nodes_of ?h n (VElem ty ps ?ds))"
    then have "i \<noteq> n" "i \<notin> set (concat ?X)" unfolding nodes by simp_all
    moreover have "i \<notin> set (drop ?l ks)"
    proof
      assume "i \<in> set (drop ?l ks)"
      then have "i \<in> set ks" by (rule in_set_dropD)
      then obtain j where "j < length ks" "i = ks ! j" by (auto simp: in_set_conv_nth)
      with root [of j] inX [of j] \<open>i \<notin> set (concat ?X)\<close> show False by blast
    qed
    ultimately show "?h' ! i = ?h ! i" using frame i(1) by simp
  qed
  ultimately have "rerendered a H ?h ?h' par n (VElem ty ps ?ds) (VElem ty ps cs1)"
    by (simp only: rerendered_def simp_thms)
  moreover have "childNodes (?h' ! n) = take ?l (childNodes (?h ! n))"
    using h'n hn by simp
  moreover have "\<forall>k \<in> set (drop ?l (childNodes (?h ! n))). parentNode (?h' ! k) = None"
  proof
    fix k assume "k \<in> set (drop ?l (childNodes (?h ! n)))"
    with hn dropped have "?h' ! k = with_parent None (?h ! k)" by simp
    then show "parentNode (?h' ! k) = None" by (cases "?h ! k") simp_all
  qed
  ultimately show ?thesis using run by blast
qed

lemma rerendered_refl:
  "corresponds a H h par n d \<Longrightarrow> distinct (nodes_of h n d) \<Longrightarrow> rerendered a H h h par n d d"
  by (simp add: rerendered_def unchanged_outside_def)

lemma map_replace_distinct:
  "distinct xs \<Longrightarrow> i < length xs \<Longrightarrow> map (\<lambda>x. if x = xs ! i then y else x) xs = xs[i := y]"
  by (rule nth_equalityI) (auto simp: nth_list_update nth_eq_iff_index_eq)

lemma hybrid_step:
  "i < length ncs \<Longrightarrow> i < length ocs \<Longrightarrow>
   (take i ncs @ drop i ocs)[i := ncs ! i] = take (Suc i) ncs @ drop (Suc i) ocs"
  by (simp add: take_Suc_conv_app_nth list_update_append Cons_nth_drop_Suc [symmetric])

lemma child_step:
  assumes IH: "\<And>new s n par. wf_vnode new \<Longrightarrow> host_accepts H new \<Longrightarrow>
      (a \<longrightarrow> names_apart H new) \<Longrightarrow> same_kind d new \<Longrightarrow>
      corresponds a H (heap s) par n d \<Longrightarrow> distinct (nodes_of (heap s) n d) \<Longrightarrow>
      \<exists>s'. diff H d new (Some n) s = (Inr (), s') \<and> rerendered a H (heap s) (heap s') par n d new"
    and wf: "wf_vnode d" "wf_vnode c" and acc: "host_accepts H c" "a \<longrightarrow> names_apart H c"
    and r: "corresponds a H (heap s) par n (VElem ty ps ds)"
    and dist: "distinct (nodes_of (heap s) n (VElem ty ps ds))"
    and i: "i < length ds" "ds ! i = d"
  shows "\<exists>s' k'. diff H d c (Some (childNodes (heap s ! n) ! i)) s = (Inr (), s') \<and>
      rerendered a H (heap s) (heap s') par n (VElem ty ps ds) (VElem ty ps (ds[i := c])) \<and>
      childNodes (heap s' ! n) = (childNodes (heap s ! n))[i := k'] \<and>
      (k' = childNodes (heap s ! n) ! i \<or> length (heap s) \<le> k')"
proof -
  let ?h = "heap s"
  from r obtain al ks where n: "n < length ?h"
    and hn: "?h ! n = ElementNode par (fold_name H (to_DOMString ty)) al ks"
    and len: "length ks = length ds"
    and kids0: "\<forall>j<length ds. corresponds a H ?h (Some n) (ks ! j) (ds ! j)"
    and nodes: "nodes_of ?h n (VElem ty ps ds) = n # concat (map (\<lambda>(k, c). nodes_of ?h k c) (zip ks ds))"
    by (rule renders_Elem_nodes)
  let ?X = "map (\<lambda>(k, c). nodes_of ?h k c) (zip ks ds)"
  let ?k = "ks ! i"
  from dist [unfolded nodes] have dX: "distinct (concat ?X)" and nX: "n \<notin> set (concat ?X)"
    by simp_all
  from i len have iX: "i < length ?X" and ik: "i < length ks" by simp_all
  have Xi: "?X ! i = nodes_of ?h ?k d" using i len by simp
  have inX: "set (?X ! i) \<subseteq> set (concat ?X)"
    using iX by (rule nth_subset_concat)
  from kids0 i have rk: "corresponds a H ?h (Some n) ?k d" by auto
  have dk: "distinct (nodes_of ?h ?k d)"
    using distinct_concat_nth [OF dX iX] unfolding Xi .
  have nk: "n \<notin> set (nodes_of ?h ?k d)"
    using nX inX unfolding Xi by blast
  have kk: "?k \<in> set (nodes_of ?h ?k d)" by (rule nodes_of_root_mem)
  with nk have kn: "?k \<noteq> n" by blast
  from rk have kb: "?k < length ?h" and pk: "parentNode (?h ! ?k) = Some n"
    by (auto dest: renders_root)
  have cn: "childNodes (?h ! n) = ks" using hn by simp
  show ?thesis
  proof (cases "same_kind d c")
    case True
    from IH [OF wf(2) acc True rk dk] obtain s'
      where run: "diff H d c (Some ?k) s = (Inr (), s')"
        and rr: "rerendered a H ?h (heap s') (Some n) ?k d c"
      by blast
    let ?h' = "heap s'"
    from rr have u: "unchanged_outside (set (nodes_of ?h ?k d)) ?h ?h'"
      and r': "corresponds a H ?h' (Some n) ?k c" and d': "distinct (nodes_of ?h' ?k c)"
      and s': "set (nodes_of ?h' ?k c) \<subseteq> set (nodes_of ?h ?k d) \<union> {length ?h..<length ?h'}"
      by (simp_all add: rerendered_def)
    from u nk n have same: "?h' ! n = ?h ! n" by (simp add: unchanged_outside_def)
    have "rerendered a H ?h ?h' par n (VElem ty ps ds) (VElem ty ps (ds[i := c]))"
    proof (rule child_update [OF r dist i(1), where k' = ?k])
      show "?h' ! n = with_children ((childNodes (?h ! n))[i := ?k]) (?h ! n)"
        using same hn by simp
      show "unchanged_outside (insert n (set (nodes_of ?h (childNodes (?h ! n) ! i) (ds ! i)))) ?h ?h'"
        unfolding cn i(2) by (rule unchanged_outside_mono [OF u]) blast
      show "corresponds a H ?h' (Some n) ?k c" by (rule r')
      show "distinct (nodes_of ?h' ?k c)" by (rule d')
      show "set (nodes_of ?h' ?k c) \<subseteq>
          set (nodes_of ?h (childNodes (?h ! n) ! i) (ds ! i)) \<union> {length ?h..<length ?h'}"
        unfolding cn i(2) by (rule s')
    qed
    moreover have "childNodes (?h' ! n) = (childNodes (?h ! n))[i := ?k]"
      using same hn by simp
    ultimately show ?thesis using run cn by blast
  next
    case False
    from wf(1) have d_nn: "d \<noteq> VNull" by auto
    from False have nb: "\<not> (is_string d \<and> is_string c)" by (auto simp: same_kind_def)
    from False wf have ty: "js_type d \<noteq> js_type c"
      by (cases d; cases c) (auto simp: same_kind_def)
    have kin: "?k \<in> set ks" using ik by simp
    from diff_replace [OF acc(1) d_nn nb ty kb pk n hn kin kn] obtain s'
      where run: "diff H d c (Some ?k) s = (Inr (), s')"
        and h'n: "heap s' ! n = ElementNode par (fold_name H (to_DOMString ty)) al
                    (map (\<lambda>x. if x = ?k then length ?h else x) ks)"
        and u: "unchanged_outside {n, ?k} ?h (heap s')"
        and r': "corresponds a H (heap s') (Some n) (length ?h) c"
        and n': "nodes_of (heap s') (length ?h) c = [length ?h..<length (heap s')]"
      by blast
    let ?h' = "heap s'" and ?m = "length ?h"
    from rendered_children_distinct(1) [OF r dist] cn have dks: "distinct ks" by simp
    have upd: "map (\<lambda>x. if x = ?k then ?m else x) ks = ks[i := ?m]"
      using dks ik by (rule map_replace_distinct)
    have "rerendered a H ?h ?h' par n (VElem ty ps ds) (VElem ty ps (ds[i := c]))"
    proof (rule child_update [OF r dist i(1), where k' = ?m])
      show "?h' ! n = with_children ((childNodes (?h ! n))[i := ?m]) (?h ! n)"
        using h'n hn upd by simp
      show "unchanged_outside (insert n (set (nodes_of ?h (childNodes (?h ! n) ! i) (ds ! i)))) ?h ?h'"
        unfolding cn i(2) using kk by (intro unchanged_outside_mono [OF u]) blast
      show "corresponds a H ?h' (Some n) ?m c" by (rule r')
      show "distinct (nodes_of ?h' ?m c)" by (simp add: n')
      show "set (nodes_of ?h' ?m c) \<subseteq>
          set (nodes_of ?h (childNodes (?h ! n) ! i) (ds ! i)) \<union> {length ?h..<length ?h'}"
        by (simp add: n')
    qed
    moreover have "childNodes (?h' ! n) = (childNodes (?h ! n))[i := ?m]"
      using h'n hn upd by simp
    ultimately show ?thesis using run cn by blast
  qed
qed

lemma diff_loop_ok:
  assumes IH: "\<And>d new s n par. d \<in> set ocs \<Longrightarrow> wf_vnode new \<Longrightarrow> host_accepts H new \<Longrightarrow>
      (a \<longrightarrow> names_apart H new) \<Longrightarrow> same_kind d new \<Longrightarrow>
      corresponds a H (heap s) par n d \<Longrightarrow> distinct (nodes_of (heap s) n d) \<Longrightarrow>
      \<exists>s'. diff H d new (Some n) s = (Inr (), s') \<and> rerendered a H (heap s) (heap s') par n d new"
    and wf: "list_all wf_vnode ocs" "list_all wf_vnode ncs"
    and acc: "list_all (host_accepts H) ncs" "a \<longrightarrow> list_all (names_apart H) ncs"
    and old: "js_children old = ocs" and new: "js_children new = ncs"
  shows "i \<le> min (length ocs) (length ncs) \<Longrightarrow>
    corresponds a H (heap s) par n (VElem ty ps (take i ncs @ drop i ocs)) \<Longrightarrow>
    distinct (nodes_of (heap s) n (VElem ty ps (take i ncs @ drop i ocs))) \<Longrightarrow>
    \<exists>s'. diff_loop H i old new (Some n) s = (Inr (), s') \<and>
      rerendered a H (heap s) (heap s') par n
        (VElem ty ps (take i ncs @ drop i ocs))
        (VElem ty ps (take (min (length ocs) (length ncs)) ncs @
                      drop (min (length ocs) (length ncs)) ocs)) \<and>
      length (childNodes (heap s' ! n)) = length (childNodes (heap s ! n)) \<and>
      (\<forall>j<length (childNodes (heap s ! n)).
         (childNodes (heap s' ! n) ! j = childNodes (heap s ! n) ! j \<or>
          length (heap s) \<le> childNodes (heap s' ! n) ! j) \<and>
         (j < i \<or> min (length ocs) (length ncs) \<le> j \<longrightarrow>
          childNodes (heap s' ! n) ! j = childNodes (heap s ! n) ! j))"
proof (induction "min (length ocs) (length ncs) - i" arbitrary: i s)
  case 0
  then have im: "min (length ocs) (length ncs) = i" by simp
  have run: "diff_loop H i old new (Some n) s = (Inr (), s)"
    using im old new by (simp add: diff_loop.simps [of _ i] minLength_def js_return_def)
  have "rerendered a H (heap s) (heap s) par n (VElem ty ps (take i ncs @ drop i ocs))
      (VElem ty ps (take i ncs @ drop i ocs))"
    using "0.prems"(2,3) by (rule rerendered_refl)
  with run show ?case unfolding im by (intro exI [of _ s]) simp
next
  case (Suc d)
  let ?m = "min (length ocs) (length ncs)"
  let ?ds = "take i ncs @ drop i ocs"
  let ?h = "heap s"
  from Suc.hyps(2) have i: "i < ?m" by arith
  then have io: "i < length ocs" and inn: "i < length ncs" by simp_all
  have lds: "length ?ds = length ocs" using io inn by simp
  have dsi: "?ds ! i = ocs ! i" using io inn by (simp add: nth_append)
  from Suc.prems(2) obtain al ks where n: "n < length ?h"
    and hn: "?h ! n = ElementNode par (fold_name H (to_DOMString ty)) al ks"
    and len: "length ks = length ?ds"
    by (rule renders_Elem_nodes)
  have cn: "childNodes (?h ! n) = ks" using hn by simp
  have g: "get_childNode (Some n) i s = (Inr (Some (ks ! i)), s)"
    using n hn len lds io by (simp add: get_childNode_def lookup_def)
  have oin: "ocs ! i \<in> set ocs" using io by simp
  from wf io inn have wfo: "wf_vnode (ocs ! i)" and wfn: "wf_vnode (ncs ! i)"
    by (simp_all add: list_all_length)
  from acc inn have accn: "host_accepts H (ncs ! i)" "a \<longrightarrow> names_apart H (ncs ! i)"
    by (simp_all add: list_all_length)
  have "\<exists>s' k'. diff H (ocs ! i) (ncs ! i) (Some (childNodes (?h ! n) ! i)) s = (Inr (), s') \<and>
      rerendered a H ?h (heap s') par n (VElem ty ps ?ds) (VElem ty ps (?ds[i := ncs ! i])) \<and>
      childNodes (heap s' ! n) = (childNodes (?h ! n))[i := k'] \<and>
      (k' = childNodes (?h ! n) ! i \<or> length ?h \<le> k')"
  proof (rule child_step [OF _ wfo wfn accn Suc.prems(2) Suc.prems(3) _ dsi])
    show "i < length ?ds" using lds io by simp
    show "\<exists>s'. diff H (ocs ! i) new (Some n) s = (Inr (), s') \<and>
        rerendered a H (heap s) (heap s') par n (ocs ! i) new"
      if "wf_vnode new" "host_accepts H new" "a \<longrightarrow> names_apart H new"
        "same_kind (ocs ! i) new" "corresponds a H (heap s) par n (ocs ! i)"
        "distinct (nodes_of (heap s) n (ocs ! i))" for new s n par
      using IH [OF oin that] .
  qed
  then obtain s1 k' where run1: "diff H (ocs ! i) (ncs ! i) (Some (ks ! i)) s = (Inr (), s1)"
    and rr1: "rerendered a H ?h (heap s1) par n (VElem ty ps ?ds) (VElem ty ps (?ds[i := ncs ! i]))"
    and ch1: "childNodes (heap s1 ! n) = ks[i := k']"
    and k': "k' = ks ! i \<or> length ?h \<le> k'"
    unfolding cn by blast
  let ?h1 = "heap s1"
  have hyb: "?ds[i := ncs ! i] = take (Suc i) ncs @ drop (Suc i) ocs"
    using inn io by (rule hybrid_step)
  from rr1 have r1: "corresponds a H ?h1 par n (VElem ty ps (take (Suc i) ncs @ drop (Suc i) ocs))"
    and d1: "distinct (nodes_of ?h1 n (VElem ty ps (take (Suc i) ncs @ drop (Suc i) ocs)))"
    and l1: "length ?h \<le> length ?h1"
    unfolding hyb by (simp_all add: rerendered_def unchanged_outside_def)
  have m1: "d = ?m - Suc i" using Suc.hyps(2) by simp
  have i1: "Suc i \<le> ?m" using i by simp
  from Suc.hyps(1) [OF m1 i1 r1 d1] obtain s'
    where run2: "diff_loop H (Suc i) old new (Some n) s1 = (Inr (), s')"
      and rr2: "rerendered a H ?h1 (heap s') par n
          (VElem ty ps (take (Suc i) ncs @ drop (Suc i) ocs))
          (VElem ty ps (take ?m ncs @ drop ?m ocs))"
      and len2: "length (childNodes (heap s' ! n)) = length (childNodes (?h1 ! n))"
      and ch2: "\<forall>j<length (childNodes (?h1 ! n)).
         (childNodes (heap s' ! n) ! j = childNodes (?h1 ! n) ! j \<or>
          length ?h1 \<le> childNodes (heap s' ! n) ! j) \<and>
         (j < Suc i \<or> ?m \<le> j \<longrightarrow> childNodes (heap s' ! n) ! j = childNodes (?h1 ! n) ! j)"
    by blast
  have "diff_loop H i old new (Some n) s = (Inr (), s')"
    using i g run1 run2 old new
    by (simp add: diff_loop.simps [of _ i] minLength_def js_bind_def)
  moreover have "rerendered a H ?h (heap s') par n (VElem ty ps ?ds)
      (VElem ty ps (take ?m ncs @ drop ?m ocs))"
    using rr1 rr2 unfolding hyb by (rule rerendered_trans)
  moreover have "length (childNodes (heap s' ! n)) = length (childNodes (?h ! n))"
    using len2 ch1 cn by simp
  moreover have "\<forall>j<length (childNodes (?h ! n)).
         (childNodes (heap s' ! n) ! j = childNodes (?h ! n) ! j \<or>
          length ?h \<le> childNodes (heap s' ! n) ! j) \<and>
         (j < i \<or> ?m \<le> j \<longrightarrow> childNodes (heap s' ! n) ! j = childNodes (?h ! n) ! j)"
  proof (intro allI impI)
    fix j assume "j < length (childNodes (?h ! n))"
    then have j: "j < length ks" unfolding cn .
    with ch2 ch1 have a: "childNodes (heap s' ! n) ! j = ks[i := k'] ! j \<or>
          length ?h1 \<le> childNodes (heap s' ! n) ! j"
      and b: "j < Suc i \<or> ?m \<le> j \<longrightarrow> childNodes (heap s' ! n) ! j = ks[i := k'] ! j"
      by simp_all
    show "(childNodes (heap s' ! n) ! j = childNodes (?h ! n) ! j \<or>
          length ?h \<le> childNodes (heap s' ! n) ! j) \<and>
         (j < i \<or> ?m \<le> j \<longrightarrow> childNodes (heap s' ! n) ! j = childNodes (?h ! n) ! j)"
    proof (cases "j = i")
      case True
      with a b k' j l1 i show ?thesis unfolding cn by auto
    next
      case False
      with a b j l1 i show ?thesis unfolding cn by auto
    qed
  qed
  ultimately show ?case by blast
qed

lemma diff_element:
  assumes IH: "\<And>d new s n par. d \<in> set ocs \<Longrightarrow> wf_vnode new \<Longrightarrow> host_accepts H new \<Longrightarrow>
      (a \<longrightarrow> names_apart H new) \<Longrightarrow> same_kind d new \<Longrightarrow>
      corresponds a H (heap s) par n d \<Longrightarrow> distinct (nodes_of (heap s) n d) \<Longrightarrow>
      \<exists>s'. diff H d new (Some n) s = (Inr (), s') \<and> rerendered a H (heap s) (heap s') par n d new"
    and wfo: "wf_vnode (VElem ty ops ocs)" and wfn: "wf_vnode (VElem ty nps ncs)"
    and accn: "host_accepts H (VElem ty nps ncs)"
    and apart: "a \<longrightarrow> distinct (map (\<lambda>(k, v). fold_name H k) ops) \<and>
      names_apart H (VElem ty nps ncs)"
    and plain: "a \<longrightarrow> list_all (\<lambda>(k, v). k \<notin> set object_prototype_keys) ops"
    and r: "corresponds a H (heap s) par n (VElem ty ops ocs)"
    and dist: "distinct (nodes_of (heap s) n (VElem ty ops ocs))"
  shows "\<exists>s'. diff H (VElem ty ops ocs) (VElem ty nps ncs) (Some n) s = (Inr (), s') \<and>
      rerendered a H (heap s) (heap s') par n (VElem ty ops ocs) (VElem ty nps ncs) \<and>
      length (childNodes (heap s' ! n)) = length ncs \<and>
      (\<forall>j<min (length ocs) (length ncs).
         childNodes (heap s' ! n) ! j = childNodes (heap s ! n) ! j \<or>
         length (heap s) \<le> childNodes (heap s' ! n) ! j) \<and>
      (\<forall>j. length ocs \<le> j \<and> j < length ncs \<longrightarrow>
         length (heap s) \<le> childNodes (heap s' ! n) ! j \<and>
         renders H (heap s') (Some n) (childNodes (heap s' ! n) ! j) (ncs ! j)) \<and>
      (\<forall>j. length ncs \<le> j \<and> j < length ocs \<longrightarrow>
         parentNode (heap s' ! (childNodes (heap s ! n) ! j)) = None)"
proof -
  let ?old = "VElem ty ops ocs" and ?new = "VElem ty nps ncs"
  let ?h = "heap s" and ?m = "min (length ocs) (length ncs)"
  from r obtain al ks where n: "n < length ?h"
    and hn: "?h ! n = ElementNode par (fold_name H (to_DOMString ty)) al ks"
    and al: "a \<longrightarrow> set al = set (stored_attributes H ops) \<and> distinct (map fst al)"
    and len: "length ks = length ocs"
    by (rule renders_Elem_nodes)
  have cn: "childNodes (?h ! n) = ks" using hn by simp
  from wfo wfn have wfc: "list_all wf_vnode ocs" "list_all wf_vnode ncs"
    by simp_all
  from accn have okn: "list_all (\<lambda>(k, v). attribute_name_ok H k) nps"
    and accc: "list_all (host_accepts H) ncs"
    by simp_all
  from apart have apc: "a \<longrightarrow> list_all (names_apart H) ncs"
    and dk: "a \<longrightarrow> distinct (map (\<lambda>(k, v). fold_name H k) ops) \<and>
      distinct (map (\<lambda>(k, v). fold_name H k) nps)"
    by simp_all
  \<comment> \<open>the attributes\<close>
  from diff_attributes [OF n hn okn, of ops] obtain s1 al'
    where a1: "js_bind (remove_old_attributes H (Some n) nps (map fst ops))
                     (\<lambda>_. set_new_attributes H (Some n) ops nps) s = (Inr (), s1)"
      and h1: "heap s1 = ?h[n := ElementNode par (fold_name H (to_DOMString ty)) al' ks]"
      and al'0: "set al = set (stored_attributes H ops) \<and> distinct (map fst al) \<and>
       distinct (map (\<lambda>(k, v). fold_name H k) ops) \<and>
       distinct (map (\<lambda>(k, v). fold_name H k) nps) \<and>
       list_all (\<lambda>(k, v). k \<notin> set object_prototype_keys) ops \<longrightarrow>
       set al' = set (stored_attributes H nps) \<and> distinct (map fst al')"
    by blast
  from al'0 al plain dk have al': "a \<longrightarrow> set al' = set (stored_attributes H nps) \<and> distinct (map fst al')"
    by blast
  let ?h1 = "heap s1"
  have c1: "diff_cases H ?old ?new (Some n) s = (Inr False, s1)"
    using a1 by (auto simp: diff_cases_def js_bind_def js_return_def split: prod.splits sum.splits)
  have h1': "?h1 = ?h[n := ElementNode par (fold_name H (to_DOMString ty)) al' (childNodes (?h ! n))]"
    using h1 cn by simp
  have rr0: "rerendered a H ?h ?h1 par n ?old (VElem ty nps ocs)"
    and ch0: "childNodes (?h1 ! n) = childNodes (?h ! n)"
    using root_update [OF r dist h1' al'] by blast+
  have l1: "length ?h1 = length ?h" using h1 by simp
  \<comment> \<open>the common positions\<close>
  from rr0 have r1: "corresponds a H ?h1 par n (VElem ty nps (take 0 ncs @ drop 0 ocs))"
    and d1: "distinct (nodes_of ?h1 n (VElem ty nps (take 0 ncs @ drop 0 ocs)))"
    by (simp_all add: rerendered_def)
  have "\<exists>s'. diff_loop H 0 ?old ?new (Some n) s1 = (Inr (), s') \<and>
      rerendered a H ?h1 (heap s') par n
        (VElem ty nps (take 0 ncs @ drop 0 ocs))
        (VElem ty nps (take ?m ncs @ drop ?m ocs)) \<and>
      length (childNodes (heap s' ! n)) = length (childNodes (?h1 ! n)) \<and>
      (\<forall>j<length (childNodes (?h1 ! n)).
         (childNodes (heap s' ! n) ! j = childNodes (?h1 ! n) ! j \<or>
          length ?h1 \<le> childNodes (heap s' ! n) ! j) \<and>
         (j < 0 \<or> ?m \<le> j \<longrightarrow> childNodes (heap s' ! n) ! j = childNodes (?h1 ! n) ! j))"
    by (rule diff_loop_ok [OF IH wfc accc apc _ _ _ r1 d1]) simp_all
  then obtain s2 where c2: "diff_loop H 0 ?old ?new (Some n) s1 = (Inr (), s2)"
    and rr1: "rerendered a H ?h1 (heap s2) par n (VElem ty nps ocs)
        (VElem ty nps (take ?m ncs @ drop ?m ocs))"
    and len2: "length (childNodes (heap s2 ! n)) = length ks"
    and ch2: "\<forall>j<length ks.
         (childNodes (heap s2 ! n) ! j = ks ! j \<or> length ?h \<le> childNodes (heap s2 ! n) ! j) \<and>
         (?m \<le> j \<longrightarrow> childNodes (heap s2 ! n) ! j = ks ! j)"
    unfolding ch0 cn l1 by auto
  let ?h2 = "heap s2" and ?ks2 = "childNodes (heap s2 ! n)"
  from rr1 have r2: "corresponds a H ?h2 par n (VElem ty nps (take ?m ncs @ drop ?m ocs))"
    and d2: "distinct (nodes_of ?h2 n (VElem ty nps (take ?m ncs @ drop ?m ocs)))"
    and l2: "length ?h1 \<le> length ?h2"
    by (simp_all add: rerendered_def unchanged_outside_def)
  have rr01: "rerendered a H ?h ?h2 par n ?old (VElem ty nps (take ?m ncs @ drop ?m ocs))"
    using rr0 rr1 by (rule rerendered_trans)
  \<comment> \<open>the tail\<close>
  have "\<exists>s3. diff_tail H ?old ?new (Some n) s2 = (Inr (), s3) \<and>
      rerendered a H ?h2 (heap s3) par n (VElem ty nps (take ?m ncs @ drop ?m ocs)) ?new \<and>
      length (childNodes (heap s3 ! n)) = length ncs \<and>
      (\<forall>j<?m. childNodes (heap s3 ! n) ! j = ?ks2 ! j) \<and>
      (\<forall>j. length ocs \<le> j \<and> j < length ncs \<longrightarrow> length ?h2 \<le> childNodes (heap s3 ! n) ! j \<and>
         renders H (heap s3) (Some n) (childNodes (heap s3 ! n) ! j) (ncs ! j)) \<and>
      (\<forall>j. length ncs \<le> j \<and> j < length ocs \<longrightarrow> parentNode (heap s3 ! (?ks2 ! j)) = None)"
  proof -
    consider (grow) "length ocs < length ncs" | (shrink) "length ncs < length ocs"
      | (same) "length ocs = length ncs"
      by linarith
    then show ?thesis
    proof cases
      case grow
      then have m: "?m = length ocs" by simp
      have hyb: "take ?m ncs @ drop ?m ocs = take (length ocs) ncs" using m by simp
      from accc have wfs: "list_all (host_accepts H) (drop (length ocs) ncs)"
        by (auto simp: list_all_iff dest: in_set_dropD)
      from append_children_live [OF r2 [unfolded hyb] d2 [unfolded hyb] wfs] obtain s3 ms
        where run: "append_new_children H (Some n) (drop (length ocs) ncs) s2 = (Inr (), s3)"
          and rr: "rerendered a H ?h2 (heap s3) par n (VElem ty nps (take (length ocs) ncs))
              (VElem ty nps (take (length ocs) ncs @ drop (length ocs) ncs))"
          and ch: "childNodes (heap s3 ! n) = ?ks2 @ ms"
          and lms: "length ms = length (drop (length ocs) ncs)"
          and fresh: "\<forall>m \<in> set ms. length ?h2 \<le> m"
          and full: "list_all2 (renders H (heap s3) (Some n)) ms (drop (length ocs) ncs)"
        by blast
      have "diff_tail H ?old ?new (Some n) s2 = (Inr (), s3)"
        using grow run by (simp add: diff_tail_def js_bind_def js_return_def)
      moreover have "rerendered a H ?h2 (heap s3) par n (VElem ty nps (take ?m ncs @ drop ?m ocs)) ?new"
        using rr unfolding hyb by simp
      moreover have "length (childNodes (heap s3 ! n)) = length ncs"
        using ch lms len2 len grow by simp
      moreover have "\<forall>j<?m. childNodes (heap s3 ! n) ! j = ?ks2 ! j"
        using ch len2 len m by (simp add: nth_append)
      moreover have "\<forall>j. length ocs \<le> j \<and> j < length ncs \<longrightarrow>
          length ?h2 \<le> childNodes (heap s3 ! n) ! j \<and>
          renders H (heap s3) (Some n) (childNodes (heap s3 ! n) ! j) (ncs ! j)"
      proof (intro allI impI)
        fix j assume j: "length ocs \<le> j \<and> j < length ncs"
        then have eq: "childNodes (heap s3 ! n) ! j = ms ! (j - length ocs)"
          using ch len2 len by (simp add: nth_append)
        have jm: "j - length ocs < length ms" using j lms by auto
        then have "ms ! (j - length ocs) \<in> set ms" by (rule nth_mem)
        with fresh have "length ?h2 \<le> ms ! (j - length ocs)" by simp
        moreover from full jm have "renders H (heap s3) (Some n) (ms ! (j - length ocs))
            (drop (length ocs) ncs ! (j - length ocs))"
          by (simp add: list_all2_conv_all_nth)
        moreover have "drop (length ocs) ncs ! (j - length ocs) = ncs ! j"
          using j by simp
        ultimately show "length ?h2 \<le> childNodes (heap s3 ! n) ! j \<and>
          renders H (heap s3) (Some n) (childNodes (heap s3 ! n) ! j) (ncs ! j)"
          unfolding eq by simp
      qed
      moreover have "\<forall>j. length ncs \<le> j \<and> j < length ocs \<longrightarrow> parentNode (heap s3 ! (?ks2 ! j)) = None"
        using grow by auto
      ultimately show ?thesis by blast
    next
      case shrink
      then have m: "?m = length ncs" by simp
      have hyb: "take ?m ncs @ drop ?m ocs = ncs @ drop (length ncs) ocs" using m by simp
      from remove_extra_children_live [OF r2 [unfolded hyb] d2 [unfolded hyb]] obtain s3
        where run: "remove_extra_children (Some n) (length ncs) s2 = (Inr (), s3)"
          and rr: "rerendered a H ?h2 (heap s3) par n (VElem ty nps (ncs @ drop (length ncs) ocs)) ?new"
          and ch: "childNodes (heap s3 ! n) = take (length ncs) ?ks2"
          and gone: "\<forall>k \<in> set (drop (length ncs) ?ks2). parentNode (heap s3 ! k) = None"
        by blast
      have "diff_tail H ?old ?new (Some n) s2 = (Inr (), s3)"
        using shrink run by (simp add: diff_tail_def js_bind_def js_return_def)
      moreover have "rerendered a H ?h2 (heap s3) par n (VElem ty nps (take ?m ncs @ drop ?m ocs)) ?new"
        using rr unfolding hyb .
      moreover have "length (childNodes (heap s3 ! n)) = length ncs"
        using ch len2 len shrink by simp
      moreover have "\<forall>j<?m. childNodes (heap s3 ! n) ! j = ?ks2 ! j"
        using ch m by simp
      moreover have "\<forall>j. length ocs \<le> j \<and> j < length ncs \<longrightarrow>
          length ?h2 \<le> childNodes (heap s3 ! n) ! j \<and>
          renders H (heap s3) (Some n) (childNodes (heap s3 ! n) ! j) (ncs ! j)"
        using shrink by auto
      moreover have "\<forall>j. length ncs \<le> j \<and> j < length ocs \<longrightarrow> parentNode (heap s3 ! (?ks2 ! j)) = None"
      proof (intro allI impI)
        fix j assume j: "length ncs \<le> j \<and> j < length ocs"
        then have "?ks2 ! j = drop (length ncs) ?ks2 ! (j - length ncs)"
          using len2 len by simp
        moreover have "drop (length ncs) ?ks2 ! (j - length ncs) \<in> set (drop (length ncs) ?ks2)"
          using j len2 len by (intro nth_mem) auto
        ultimately show "parentNode (heap s3 ! (?ks2 ! j)) = None"
          using gone by simp
      qed
      ultimately show ?thesis by blast
    next
      case same
      then have hyb: "take ?m ncs @ drop ?m ocs = ncs" by simp
      have "diff_tail H ?old ?new (Some n) s2 = (Inr (), s2)"
        using same by (simp add: diff_tail_def js_bind_def js_return_def)
      moreover have "rerendered a H ?h2 ?h2 par n (VElem ty nps (take ?m ncs @ drop ?m ocs)) ?new"
        using rerendered_refl [OF r2 d2] unfolding hyb .
      moreover have "length ?ks2 = length ncs" using len2 len same by simp
      ultimately show ?thesis using same by auto
    qed
  qed
  then obtain s3 where c3: "diff_tail H ?old ?new (Some n) s2 = (Inr (), s3)"
    and rr2: "rerendered a H ?h2 (heap s3) par n (VElem ty nps (take ?m ncs @ drop ?m ocs)) ?new"
    and len3: "length (childNodes (heap s3 ! n)) = length ncs"
    and keep: "\<forall>j<?m. childNodes (heap s3 ! n) ! j = ?ks2 ! j"
    and fresh: "\<forall>j. length ocs \<le> j \<and> j < length ncs \<longrightarrow> length ?h2 \<le> childNodes (heap s3 ! n) ! j \<and>
         renders H (heap s3) (Some n) (childNodes (heap s3 ! n) ! j) (ncs ! j)"
    and gone: "\<forall>j. length ncs \<le> j \<and> j < length ocs \<longrightarrow> parentNode (heap s3 ! (?ks2 ! j)) = None"
    by blast
  have "diff H ?old ?new (Some n) s = (Inr (), s3)"
    using c1 c2 c3 by (simp add: diff.simps js_bind_def)
  moreover have "rerendered a H ?h (heap s3) par n ?old ?new"
    using rr01 rr2 by (rule rerendered_trans)
  moreover have "\<forall>j<?m. childNodes (heap s3 ! n) ! j = childNodes (?h ! n) ! j \<or>
         length ?h \<le> childNodes (heap s3 ! n) ! j"
    using keep ch2 len unfolding cn by auto
  moreover have "\<forall>j. length ocs \<le> j \<and> j < length ncs \<longrightarrow>
         length ?h \<le> childNodes (heap s3 ! n) ! j \<and>
         renders H (heap s3) (Some n) (childNodes (heap s3 ! n) ! j) (ncs ! j)"
    using fresh l1 l2 by auto
  moreover have "\<forall>j. length ncs \<le> j \<and> j < length ocs \<longrightarrow>
         parentNode (heap s3 ! (childNodes (?h ! n) ! j)) = None"
  proof (intro allI impI)
    fix j assume j: "length ncs \<le> j \<and> j < length ocs"
    with ch2 len have "?ks2 ! j = ks ! j" by simp
    with gone j show "parentNode (heap s3 ! (childNodes (?h ! n) ! j)) = None"
      unfolding cn by auto
  qed
  ultimately show ?thesis using len3 by blast
qed


lemma diff_in_place:
  "wf_vnode old \<Longrightarrow> wf_vnode new \<Longrightarrow> host_accepts H new \<Longrightarrow> (a \<longrightarrow> names_apart H new) \<Longrightarrow>
   (a \<longrightarrow> plain_names old \<and> names_apart H old) \<Longrightarrow> same_kind old new \<Longrightarrow>
   corresponds a H (heap s) par n old \<Longrightarrow> distinct (nodes_of (heap s) n old) \<Longrightarrow>
   \<exists>s'. diff H old new (Some n) s = (Inr (), s') \<and> rerendered a H (heap s) (heap s') par n old new"
proof (induction old arbitrary: new s n par)
  case VNull
  then show ?case by simp
next
  case (VText t)
  from VText.prems(2,6) obtain u where new: "new = VText u"
    by (cases new) (auto simp: same_kind_def)
  from VText.prems(7) have n: "n < length (heap s)" and hn: "heap s ! n = TextNode par t"
    by simp_all
  show ?case
  proof (cases "t = u")
    case True
    then have "diff H (VText t) new (Some n) s = (Inr (), s)"
      by (simp add: new diff.simps diff_loop.simps diff_cases_def diff_tail_def minLength_def
          js_bind_def js_return_def)
    moreover have "rerendered a H (heap s) (heap s) par n (VText t) new"
      using VText.prems(7) True by (simp add: new rerendered_def unchanged_outside_def)
    ultimately show ?thesis by blast
  next
    case False
    let ?s' = "s\<lparr>heap := (heap s)[n := TextNode par u], log := log s @ [SetTextContent n u]\<rparr>"
    from False n hn have "diff H (VText t) new (Some n) s = (Inr (), ?s')"
      by (simp add: new diff.simps diff_cases_def js_bind_def js_return_def
          set_textContent_def lookup_def)
    moreover have "rerendered a H (heap s) (heap ?s') par n (VText t) new"
      using n by (simp add: new rerendered_def unchanged_outside_def)
    ultimately show ?thesis by blast
  qed
next
  case (VElem ty ops ocs)
  from VElem.prems(2,6) obtain nps ncs where new: "new = VElem ty nps ncs"
    by (cases new) (auto simp: same_kind_def)
  from VElem.prems(1) have wfc: "list_all wf_vnode ocs" by simp
  from VElem.prems(5) have plain: "a \<longrightarrow> list_all (\<lambda>(k, v). k \<notin> set object_prototype_keys) ops"
    and plc: "a \<longrightarrow> list_all plain_names ocs"
    and apo: "a \<longrightarrow> distinct (map (\<lambda>(k, v). fold_name H k) ops)"
    and apc: "a \<longrightarrow> list_all (names_apart H) ocs"
    by simp_all
  from apo VElem.prems(4) have apart: "a \<longrightarrow> distinct (map (\<lambda>(k, v). fold_name H k) ops) \<and>
      names_apart H (VElem ty nps ncs)"
    unfolding new by blast
  have IH: "\<exists>s'. diff H d new (Some n) s = (Inr (), s') \<and>
      rerendered a H (heap s) (heap s') par n d new"
    if "d \<in> set ocs" "wf_vnode new" "host_accepts H new" "a \<longrightarrow> names_apart H new"
      "same_kind d new" "corresponds a H (heap s) par n d"
      "distinct (nodes_of (heap s) n d)" for d new s n par
  proof (rule VElem.IH [OF that(1) _ that(2) that(3) that(4) _ that(5) that(6) that(7)])
    show "wf_vnode d" using wfc that(1) by (simp add: list_all_iff)
    show "a \<longrightarrow> plain_names d \<and> names_apart H d"
      using plc apc that(1) by (simp add: list_all_iff)
  qed
  from diff_element [OF IH VElem.prems(1) VElem.prems(2) [unfolded new]
      VElem.prems(3) [unfolded new] apart plain VElem.prems(7) VElem.prems(8)]
  show ?case unfolding new by blast
qed

text \<open>
  Claim C1, as amended. For two well-formed element descriptions with the same tag name
  and a live node that renders the old description (its subtree being a tree), where the
  host accepts the names of the new description, the host stores the attribute names of
  each element of the two descriptions under names that differ, and no attribute name of
  the old description is a property name of \<open>Object.prototype\<close>: \<open>diff\<close> returns without a
  fault, and afterwards the attributes of the live node are exactly those of the new
  description (each under the name as the host stores it), it has as many children as the
  new description, and each child, in order, renders the child description at its
  position.
\<close>

theorem diff_same_tag_renders_new:
  assumes "wf_vnode (VElem ty ops ocs)" "wf_vnode (VElem ty nps ncs)"
    and "host_accepts H (VElem ty nps ncs)"
    and "names_apart H (VElem ty ops ocs)" "names_apart H (VElem ty nps ncs)"
    and "plain_names (VElem ty ops ocs)"
    and "renders H (heap s) par n (VElem ty ops ocs)"
    and "distinct (nodes_of (heap s) n (VElem ty ops ocs))"
  shows "\<exists>s'. diff H (VElem ty ops ocs) (VElem ty nps ncs) (Some n) s = (Inr (), s') \<and>
      set (attributes (heap s' ! n)) = set (map (\<lambda>(k, v). (fold_name H k, v)) nps) \<and>
      length (childNodes (heap s' ! n)) = length ncs \<and>
      list_all2 (renders H (heap s') (Some n)) (childNodes (heap s' ! n)) ncs"
proof -
  have "same_kind (VElem ty ops ocs) (VElem ty nps ncs)"
    by (simp add: same_kind_def)
  from diff_in_place [OF assms(1,2,3) _ _ this assms(7,8)] assms(4,5,6) obtain s'
    where run: "diff H (VElem ty ops ocs) (VElem ty nps ncs) (Some n) s = (Inr (), s')"
      and rr: "rerendered True H (heap s) (heap s') par n (VElem ty ops ocs) (VElem ty nps ncs)"
    by blast
  from rr have "renders H (heap s') par n (VElem ty nps ncs)"
    by (simp add: rerendered_def)
  then obtain al ks where "heap s' ! n = ElementNode par (fold_name H (to_DOMString ty)) al ks"
    "True \<longrightarrow> set al = set (stored_attributes H nps) \<and> distinct (map fst al)"
    "list_all2 (renders H (heap s') (Some n)) ks ncs"
    by (rule renders_ElemE)
  moreover from assms(5) have "set (stored_attributes H nps) =
      set (map (\<lambda>(k, v). (fold_name H k, v)) nps)"
    by (intro stored_attributes_apart) simp
  ultimately have "set (attributes (heap s' ! n)) = set (map (\<lambda>(k, v). (fold_name H k, v)) nps)"
    "length (childNodes (heap s' ! n)) = length ncs"
    "list_all2 (renders H (heap s') (Some n)) (childNodes (heap s' ! n)) ncs"
    by (simp_all add: list_all2_lengthD)
  with run show ?thesis by blast
qed

text \<open>
  The theorem in a document of type text/html, at an element whose attribute changes,
  whose first child is a text that changes, whose second child is replaced by an element
  with another tag, and which gets a third child.
\<close>

theorem diff_same_tag_renders_new_witness:
  "wf_vnode (VElem (Some ''div'') [(''class'', ''a'')] [VText ''hi'', VElem (Some ''p'') [] []]) \<and>
   wf_vnode (VElem (Some ''div'') [(''class'', ''b'')]
                [VText ''bye'', VElem (Some ''span'') [] [], VText ''!'']) \<and>
   host_accepts html_document (VElem (Some ''div'') [(''class'', ''b'')]
                [VText ''bye'', VElem (Some ''span'') [] [], VText ''!'']) \<and>
   names_apart html_document
     (VElem (Some ''div'') [(''class'', ''a'')] [VText ''hi'', VElem (Some ''p'') [] []]) \<and>
   names_apart html_document (VElem (Some ''div'') [(''class'', ''b'')]
                [VText ''bye'', VElem (Some ''span'') [] [], VText ''!'']) \<and>
   plain_names (VElem (Some ''div'') [(''class'', ''a'')] [VText ''hi'', VElem (Some ''p'') [] []]) \<and>
   renders html_document
     [ElementNode None ''div'' [(''class'', ''a'')] [1, 2], TextNode (Some 0) ''hi'',
      ElementNode (Some 0) ''p'' [] []] None 0
     (VElem (Some ''div'') [(''class'', ''a'')] [VText ''hi'', VElem (Some ''p'') [] []]) \<and>
   distinct (nodes_of [ElementNode None ''div'' [(''class'', ''a'')] [1, 2], TextNode (Some 0) ''hi'',
            ElementNode (Some 0) ''p'' [] []] 0
     (VElem (Some ''div'') [(''class'', ''a'')] [VText ''hi'', VElem (Some ''p'') [] []])) \<and>
   (\<exists>s'. diff html_document
            (VElem (Some ''div'') [(''class'', ''a'')] [VText ''hi'', VElem (Some ''p'') [] []])
            (VElem (Some ''div'') [(''class'', ''b'')]
                [VText ''bye'', VElem (Some ''span'') [] [], VText ''!''])
            (Some 0)
            \<lparr>heap = [ElementNode None ''div'' [(''class'', ''a'')] [1, 2], TextNode (Some 0) ''hi'',
                     ElementNode (Some 0) ''p'' [] []], log = []\<rparr> = (Inr (), s') \<and>
      heap s' = [ElementNode None ''div'' [(''class'', ''b'')] [1, 3, 4],
                 TextNode (Some 0) ''bye'', ElementNode None ''p'' [] [],
                 ElementNode (Some 0) ''span'' [] [], TextNode (Some 0) ''!''] \<and>
      set (attributes (heap s' ! 0)) = {(''class'', ''b'')} \<and>
      list_all2 (renders html_document (heap s') (Some 0)) (childNodes (heap s' ! 0))
        [VText ''bye'', VElem (Some ''span'') [] [], VText ''!''])"
  using diff_same_tag_renders_new [where H = html_document and ty = "Some ''div''"
      and ops = "[(''class'', ''a'')]" and ocs = "[VText ''hi'', VElem (Some ''p'') [] []]"
      and nps = "[(''class'', ''b'')]"
      and ncs = "[VText ''bye'', VElem (Some ''span'') [] [], VText ''!'']"
      and s = "\<lparr>heap = [ElementNode None ''div'' [(''class'', ''a'')] [1, 2], TextNode (Some 0) ''hi'',
               ElementNode (Some 0) ''p'' [] []], log = []\<rparr>" and par = None and n = 0]
  by (simp add: prim_defs)

text \<open>
  Claim C3, as amended. For two well-formed element descriptions with the same tag name,
  where the host accepts the names of the new description, and a live node whose subtree
  has the shape of the old description: \<open>diff\<close> returns without a fault and the live node
  then has as many children as the new description. When the new child list is longer,
  each position from the old length on holds a node that was built during the call and
  that renders the new child at that position. When the old child list is longer, the live
  children from the new length on have been taken out of the live node. At each of the
  first \<open>m\<close> positions, \<open>m\<close> the smaller of the two lengths, there is the node that was
  there before or a node built in its place during the call: no live child has moved to
  another position.
\<close>

theorem diff_same_tag_children:
  assumes "wf_vnode (VElem ty ops ocs)" "wf_vnode (VElem ty nps ncs)"
    and "host_accepts H (VElem ty nps ncs)"
    and "shaped H (heap s) par n (VElem ty ops ocs)"
    and "distinct (nodes_of (heap s) n (VElem ty ops ocs))"
  shows "\<exists>s'. diff H (VElem ty ops ocs) (VElem ty nps ncs) (Some n) s = (Inr (), s') \<and>
      length (childNodes (heap s' ! n)) = length ncs \<and>
      (\<forall>j. length ocs \<le> j \<and> j < length ncs \<longrightarrow>
         length (heap s) \<le> childNodes (heap s' ! n) ! j \<and>
         renders H (heap s') (Some n) (childNodes (heap s' ! n) ! j) (ncs ! j)) \<and>
      (\<forall>j. length ncs \<le> j \<and> j < length ocs \<longrightarrow>
         parentNode (heap s' ! (childNodes (heap s ! n) ! j)) = None) \<and>
      (\<forall>j<min (length ocs) (length ncs).
         childNodes (heap s' ! n) ! j = childNodes (heap s ! n) ! j \<or>
         length (heap s) \<le> childNodes (heap s' ! n) ! j)"
proof -
  from assms(1) have wfc: "list_all wf_vnode ocs" by simp
  have IH: "\<exists>s'. diff H d new (Some n) s = (Inr (), s') \<and>
      rerendered False H (heap s) (heap s') par n d new"
    if "d \<in> set ocs" "wf_vnode new" "host_accepts H new" "False \<longrightarrow> names_apart H new"
      "same_kind d new" "shaped H (heap s) par n d"
      "distinct (nodes_of (heap s) n d)" for d new s n par
  proof (rule diff_in_place [OF _ that(2) that(3) that(4) _ that(5) that(6) that(7)])
    show "wf_vnode d" using wfc that(1) by (simp add: list_all_iff)
    show "False \<longrightarrow> plain_names d \<and> names_apart H d" by simp
  qed
  from diff_element [OF IH assms(1) assms(2) assms(3) _ _ assms(4) assms(5)]
  show ?thesis by blast
qed

text \<open>The theorem in a document of type text/html, at a list that shrinks from three items
  to one and at a list that grows from two items to three.\<close>

theorem diff_same_tag_children_witness:
  "wf_vnode (VElem (Some ''ul'') [] [VText ''a'', VText ''b'', VText ''c'']) \<and>
   wf_vnode (VElem (Some ''ul'') [] [VText ''a'']) \<and>
   host_accepts html_document (VElem (Some ''ul'') [] [VText ''a'']) \<and>
   shaped html_document
     [ElementNode None ''ul'' [(''tostring'', ''x'')] [1, 2, 3], TextNode (Some 0) ''a'',
      TextNode (Some 0) ''b'', TextNode (Some 0) ''c''] None 0
     (VElem (Some ''ul'') [] [VText ''a'', VText ''b'', VText ''c'']) \<and>
   distinct (nodes_of [ElementNode None ''ul'' [(''tostring'', ''x'')] [1, 2, 3], TextNode (Some 0) ''a'',
           TextNode (Some 0) ''b'', TextNode (Some 0) ''c''] 0
     (VElem (Some ''ul'') [] [VText ''a'', VText ''b'', VText ''c''])) \<and>
   diff html_document (VElem (Some ''ul'') [] [VText ''a'', VText ''b'', VText ''c''])
        (VElem (Some ''ul'') [] [VText ''a'']) (Some 0)
        \<lparr>heap = [ElementNode None ''ul'' [(''tostring'', ''x'')] [1, 2, 3], TextNode (Some 0) ''a'',
                 TextNode (Some 0) ''b'', TextNode (Some 0) ''c''], log = []\<rparr> =
     (Inr (), \<lparr>heap = [ElementNode None ''ul'' [(''tostring'', ''x'')] [1], TextNode (Some 0) ''a'',
                       TextNode None ''b'', TextNode None ''c''],
               log = [RemoveChild 0 3, RemoveChild 0 2]\<rparr>) \<and>
   wf_vnode (VElem (Some ''ul'') [] [VText ''a'', VText ''b'']) \<and>
   wf_vnode (VElem (Some ''ul'') [] [VText ''a'', VText ''b'', VText ''c'']) \<and>
   host_accepts html_document (VElem (Some ''ul'') [] [VText ''a'', VText ''b'', VText ''c'']) \<and>
   shaped html_document
     [ElementNode None ''ul'' [] [1, 2], TextNode (Some 0) ''a'', TextNode (Some 0) ''b''] None 0
     (VElem (Some ''ul'') [] [VText ''a'', VText ''b'']) \<and>
   distinct (nodes_of [ElementNode None ''ul'' [] [1, 2], TextNode (Some 0) ''a'',
           TextNode (Some 0) ''b''] 0 (VElem (Some ''ul'') [] [VText ''a'', VText ''b''])) \<and>
   diff html_document (VElem (Some ''ul'') [] [VText ''a'', VText ''b''])
        (VElem (Some ''ul'') [] [VText ''a'', VText ''b'', VText ''c'']) (Some 0)
        \<lparr>heap = [ElementNode None ''ul'' [] [1, 2], TextNode (Some 0) ''a'', TextNode (Some 0) ''b''],
         log = []\<rparr> =
     (Inr (), \<lparr>heap = [ElementNode None ''ul'' [] [1, 2, 3], TextNode (Some 0) ''a'',
                       TextNode (Some 0) ''b'', TextNode (Some 0) ''c''],
               log = [AppendChild 0 3]\<rparr>)"
  using diff_same_tag_children [where H = html_document and ty = "Some ''ul''" and ops = "[]"
      and ocs = "[VText ''a'', VText ''b'', VText ''c'']" and nps = "[]" and ncs = "[VText ''a'']"
      and s = "\<lparr>heap = [ElementNode None ''ul'' [(''tostring'', ''x'')] [1, 2, 3],
                        TextNode (Some 0) ''a'', TextNode (Some 0) ''b'', TextNode (Some 0) ''c''],
                log = []\<rparr>" and par = None and n = 0]
    diff_same_tag_children [where H = html_document and ty = "Some ''ul''" and ops = "[]"
      and ocs = "[VText ''a'', VText ''b'']" and nps = "[]"
      and ncs = "[VText ''a'', VText ''b'', VText ''c'']"
      and s = "\<lparr>heap = [ElementNode None ''ul'' [] [1, 2], TextNode (Some 0) ''a'',
                        TextNode (Some 0) ''b''], log = []\<rparr>" and par = None and n = 0]
  by (simp add: prim_defs)

text \<open>
  Claim C3, as stated, fails where the host refuses a name of a surplus child. The new
  list has two more children than the old one, a text and an element with an empty tag
  name: \<open>diff\<close> appends the text, then \<open>createElement\<close> throws, and the live node is left
  with two children where the new description has three.
\<close>

theorem surplus_child_refused:
  "wf_vnode (VElem (Some ''ul'') [] [VText ''a'']) \<and>
   wf_vnode (VElem (Some ''ul'') [] [VText ''a'', VText ''b'', VElem (Some '''') [] []]) \<and>
   shaped html_document [ElementNode None ''ul'' [] [1], TextNode (Some 0) ''a''] None 0
     (VElem (Some ''ul'') [] [VText ''a'']) \<and>
   diff html_document (VElem (Some ''ul'') [] [VText ''a''])
        (VElem (Some ''ul'') [] [VText ''a'', VText ''b'', VElem (Some '''') [] []]) (Some 0)
        \<lparr>heap = [ElementNode None ''ul'' [] [1], TextNode (Some 0) ''a''], log = []\<rparr> =
     (Inl InvalidCharacterError,
      \<lparr>heap = [ElementNode None ''ul'' [] [1, 2], TextNode (Some 0) ''a'', TextNode (Some 0) ''b''],
       log = [AppendChild 0 2]\<rparr>)"
  by (simp add: prim_defs)

section \<open>A replaced node\<close>

text \<open>
  Claim C1, as stated, fails for two elements with different tag names: the live node
  passed in is taken out of its parent and not updated, so it still has the attributes of
  the old description (here \<open>class\<close>), not those of the new one (here none). It also fails
  in a document of type text/html for a new description with the attribute names \<open>A\<close> and
  \<open>a\<close>, which the host stores as one: the live node ends with the value of \<open>A\<close>, where the
  element that \<open>createTree\<close> builds from the new description has the value of \<open>a\<close>.
\<close>

theorem replaced_node_keeps_old_attributes:
  "diff xml_document (VElem (Some ''div'') [(''class'', ''a'')] []) (VElem (Some ''span'') [] [])
     (Some 1)
     \<lparr>heap = [ElementNode None ''body'' [] [1], ElementNode (Some 0) ''div'' [(''class'', ''a'')] []],
      log = []\<rparr> =
   (Inr (), \<lparr>heap = [ElementNode None ''body'' [] [2], ElementNode None ''div'' [(''class'', ''a'')] [],
                     ElementNode (Some 0) ''span'' [] []],
             log = [ReplaceChild 0 2 1]\<rparr>) \<and>
   diff html_document (VElem (Some ''div'') [(''class'', ''a'')] []) (VElem (Some ''span'') [] [])
     (Some 1)
     \<lparr>heap = [ElementNode None ''body'' [] [1], ElementNode (Some 0) ''div'' [(''class'', ''a'')] []],
      log = []\<rparr> =
   (Inr (), \<lparr>heap = [ElementNode None ''body'' [] [2], ElementNode None ''div'' [(''class'', ''a'')] [],
                     ElementNode (Some 0) ''span'' [] []],
             log = [ReplaceChild 0 2 1]\<rparr>) \<and>
   set (attributes (ElementNode None ''div'' [(''class'', ''a'')] [])) \<noteq>
     set (js_props (VElem (Some ''span'') [] [])) \<and>
   diff html_document (VElem (Some ''div'') [(''a'', ''1'')] [])
     (VElem (Some ''div'') [(''A'', ''2''), (''a'', ''1'')] []) (Some 0)
     \<lparr>heap = [ElementNode None ''div'' [(''a'', ''1'')] []], log = []\<rparr> =
   (Inr (), \<lparr>heap = [ElementNode None ''div'' [(''a'', ''2'')] []],
             log = [SetAttribute 0 ''A'' ''2'']\<rparr>) \<and>
   createTree html_document (VElem (Some ''div'') [(''A'', ''2''), (''a'', ''1'')] [])
     \<lparr>heap = [], log = []\<rparr> =
   (Inr 0, \<lparr>heap = [ElementNode None ''div'' [(''a'', ''1'')] []],
            log = [SetAttribute 0 ''A'' ''2'', SetAttribute 0 ''a'' ''1'']\<rparr>)"
  by (simp add: prim_defs)

section \<open>Attribute names inherited from \<open>Object.prototype\<close>\<close>

text \<open>
  Where no attribute name is inherited from \<open>Object.prototype\<close>, the host accepts the names
  of both descriptions and stores the attribute names of each element under names that
  differ, reconciling the child at a position of a live element from one well-formed
  description to another and back gives a subtree that renders the first description again.
\<close>

lemma diff_round_trip_at_position:
  assumes wf: "wf_vnode d" "wf_vnode c" and plain: "plain_names d" "plain_names c"
    and acc: "host_accepts H d" "host_accepts H c"
    and apart: "names_apart H d" "names_apart H c"
    and r: "renders H (heap s) par p (VElem ty ps ds)"
    and dist: "distinct (nodes_of (heap s) p (VElem ty ps ds))"
    and i: "i < length ds" "ds ! i = d"
  shows "\<exists>s1 s2. diff H d c (Some (childNodes (heap s ! p) ! i)) s = (Inr (), s1) \<and>
      diff H c d (Some (childNodes (heap s1 ! p) ! i)) s1 = (Inr (), s2) \<and>
      renders H (heap s2) par p (VElem ty ps ds)"
proof -
  have step: "\<exists>s' k'. diff H x y (Some (childNodes (heap t ! p) ! i)) t = (Inr (), s') \<and>
      rerendered True H (heap t) (heap s') par p (VElem ty ps xs) (VElem ty ps (xs[i := y])) \<and>
      childNodes (heap s' ! p) = (childNodes (heap t ! p))[i := k'] \<and>
      (k' = childNodes (heap t ! p) ! i \<or> length (heap t) \<le> k')"
    if "wf_vnode x" "wf_vnode y" "host_accepts H y" "True \<longrightarrow> names_apart H y"
      "renders H (heap t) par p (VElem ty ps xs)"
      "distinct (nodes_of (heap t) p (VElem ty ps xs))" "i < length xs" "xs ! i = x"
      "plain_names x" "names_apart H x"
    for x y t xs
  proof (rule child_step [OF _ that(1,2,3,4,5,6,7,8)])
    show "\<exists>s'. diff H x new (Some n) s = (Inr (), s') \<and>
        rerendered True H (heap s) (heap s') par n x new"
      if "wf_vnode new" "host_accepts H new" "True \<longrightarrow> names_apart H new" "same_kind x new"
        "renders H (heap s) par n x" "distinct (nodes_of (heap s) n x)" for new s n par
      using diff_in_place [OF \<open>wf_vnode x\<close> that(1,2,3) _ that(4,5,6)]
        \<open>plain_names x\<close> \<open>names_apart H x\<close> by blast
  qed
  from step [OF wf acc(2) _ r dist i plain(1) apart(1)] apart(2) obtain s1
    where run1: "diff H d c (Some (childNodes (heap s ! p) ! i)) s = (Inr (), s1)"
      and rr1: "rerendered True H (heap s) (heap s1) par p (VElem ty ps ds) (VElem ty ps (ds[i := c]))"
    by blast
  from rr1 have r1: "renders H (heap s1) par p (VElem ty ps (ds[i := c]))"
    and d1: "distinct (nodes_of (heap s1) p (VElem ty ps (ds[i := c])))"
    by (simp_all add: rerendered_def)
  have i1: "i < length (ds[i := c])" "ds[i := c] ! i = c" using i by simp_all
  from step [OF wf(2,1) acc(1) _ r1 d1 i1 plain(2) apart(2)] apart(1) obtain s2
    where run2: "diff H c d (Some (childNodes (heap s1 ! p) ! i)) s1 = (Inr (), s2)"
      and rr2: "rerendered True H (heap s1) (heap s2) par p (VElem ty ps (ds[i := c]))
          (VElem ty ps ((ds[i := c])[i := d]))"
    by blast
  have same_ds: "(ds[i := c])[i := d] = ds" using i(2) by (metis list_update_id list_update_overwrite)
  from rr2 have "renders H (heap s2) par p (VElem ty ps ((ds[i := c])[i := d]))"
    unfolding rerendered_def by blast
  then have "renders H (heap s2) par p (VElem ty ps ds)"
    unfolding same_ds .
  with run1 run2 show ?thesis by blast
qed

lemma remove_old_attributes_log:
  "n < length (heap s) \<Longrightarrow> heap s ! n = ElementNode q tg al ks \<Longrightarrow>
   \<exists>s'. remove_old_attributes H (Some n) nps keys s = (Inr (), s') \<and> n < length (heap s') \<and>
     (\<exists>al'. heap s' ! n = ElementNode q tg al' ks) \<and>
     log s' = log s @ map (RemoveAttribute n) (filter (\<lambda>k. \<not> js_in k nps) keys)"
proof (induction keys arbitrary: s al)
  case Nil
  then show ?case by (simp add: js_return_def)
next
  case (Cons k keys)
  show ?case
  proof (cases "js_in k nps")
    case True
    with Cons.IH [OF Cons.prems] show ?thesis
      by (simp add: js_bind_def js_return_def)
  next
    case False
    let ?s1 = "s\<lparr>heap := (heap s)[n := ElementNode q tg (AList.delete (fold_name H k) al) ks],
                 log := log s @ [RemoveAttribute n k]\<rparr>"
    from Cons.prems have 1: "removeAttribute H (Some n) k s = (Inr (), ?s1)"
      by (simp add: removeAttribute_def lookup_def)
    from Cons.prems have "n < length (heap ?s1)"
      "heap ?s1 ! n = ElementNode q tg (AList.delete (fold_name H k) al) ks"
      by simp_all
    from Cons.IH [OF this] 1 False show ?thesis
      by (simp add: js_bind_def)
  qed
qed

lemma set_new_attributes_log:
  "n < length (heap s) \<Longrightarrow> heap s ! n = ElementNode q tg al ks \<Longrightarrow>
   list_all (\<lambda>(k, v). attribute_name_ok H k) kvs \<Longrightarrow>
   \<exists>s'. set_new_attributes H (Some n) ops kvs s = (Inr (), s') \<and>
     log s' = log s @ map (\<lambda>(k, v). SetAttribute n k v)
       (filter (\<lambda>(k, v). \<not> js_in k ops \<or> js_get ops k \<noteq> JString v) kvs)"
proof (induction kvs arbitrary: s al)
  case Nil
  then show ?case by (simp add: js_return_def)
next
  case (Cons kv kvs)
  obtain k v where kv: "kv = (k, v)" by (cases kv)
  from Cons.prems(3) have ok: "attribute_name_ok H k"
    and rest: "list_all (\<lambda>(k, v). attribute_name_ok H k) kvs"
    by (simp_all add: kv)
  show ?case
  proof (cases "\<not> js_in k ops \<or> js_get ops k \<noteq> JString v")
    case False
    with Cons.IH [OF Cons.prems(1,2) rest] show ?thesis
      by (simp add: kv js_bind_def js_return_def)
  next
    case True
    let ?s1 = "s\<lparr>heap := (heap s)[n := ElementNode q tg (AList.update (fold_name H k) v al) ks],
                 log := log s @ [SetAttribute n k v]\<rparr>"
    from Cons.prems(1,2) ok have 1: "setAttribute H (Some n) k v s = (Inr (), ?s1)"
      by (simp add: setAttribute_def lookup_def)
    from Cons.prems have "n < length (heap ?s1)"
      "heap ?s1 ! n = ElementNode q tg (AList.update (fold_name H k) v al) ks"
      by simp_all
    from Cons.IH [OF this rest] 1 True show ?thesis
      by (simp add: kv js_bind_def)
  qed
qed

text \<open>
  The writes of the attribute update, for an old mapping without names inherited from
  \<open>Object.prototype\<close> and a new mapping whose names the host accepts: one removal for each
  old name that the new mapping lacks, then one \<open>setAttribute\<close> for each new entry that the
  old mapping does not have with the same value, and nothing else.
\<close>

lemma diff_attributes_writes:
  assumes n: "n < length (heap s)" "heap s ! n = ElementNode q tg al ks"
    and ops: "distinct (map fst ops)"
    and plain: "list_all (\<lambda>(k, v). k \<notin> set object_prototype_keys) ops"
    and ok: "list_all (\<lambda>(k, v). attribute_name_ok H k) nps"
  shows "\<exists>s'. js_bind (remove_old_attributes H (Some n) nps (map fst ops))
                     (\<lambda>_. set_new_attributes H (Some n) ops nps) s = (Inr (), s') \<and>
      log s' = log s @
        map (RemoveAttribute n) (filter (\<lambda>k. k \<notin> fst ` set nps) (map fst ops)) @
        map (\<lambda>(k, v). SetAttribute n k v) (filter (\<lambda>(k, v). (k, v) \<notin> set ops) nps)"
proof -
  from remove_old_attributes_log [OF n, of H nps "map fst ops"] obtain s1 al1
    where c1: "remove_old_attributes H (Some n) nps (map fst ops) s = (Inr (), s1)"
      and n1: "n < length (heap s1)" "heap s1 ! n = ElementNode q tg al1 ks"
      and l1: "log s1 = log s @ map (RemoveAttribute n) (filter (\<lambda>k. \<not> js_in k nps) (map fst ops))"
    by blast
  from set_new_attributes_log [OF n1 ok, of ops] obtain s2
    where c2: "set_new_attributes H (Some n) ops nps s1 = (Inr (), s2)"
      and l2: "log s2 = log s1 @ map (\<lambda>(k, v). SetAttribute n k v)
       (filter (\<lambda>(k, v). \<not> js_in k ops \<or> js_get ops k \<noteq> JString v) nps)"
    by blast
  have f1: "filter (\<lambda>k. \<not> js_in k nps) (map fst ops) = filter (\<lambda>k. k \<notin> fst ` set nps) (map fst ops)"
    using plain by (intro filter_cong) (auto simp: js_in_def list_all_iff)
  have own: "(\<not> js_in k ops \<or> js_get ops k \<noteq> JString v) = ((k, v) \<notin> set ops)" for k v
  proof (cases "map_of ops k")
    case None
    then have "k \<notin> fst ` set ops" by (simp add: map_of_eq_None_iff)
    with None show ?thesis by (force simp: js_get_def)
  next
    case (Some u)
    then have "(k, u) \<in> set ops" by (rule map_of_SomeD)
    moreover from this have "js_in k ops" by (force simp: js_in_def)
    moreover have "((k, v) \<in> set ops) = (u = v)"
      using ops Some by (metis map_of_is_SomeI option.inject map_of_SomeD)
    ultimately show ?thesis using Some by (auto simp: js_get_def)
  qed
  have f2: "filter (\<lambda>(k, v). \<not> js_in k ops \<or> js_get ops k \<noteq> JString v) nps =
      filter (\<lambda>(k, v). (k, v) \<notin> set ops) nps"
    using own by (intro filter_cong) (simp_all add: split_beta)
  have "js_bind (remove_old_attributes H (Some n) nps (map fst ops))
                     (\<lambda>_. set_new_attributes H (Some n) ops nps) s = (Inr (), s2)"
    using c1 c2 by (simp add: js_bind_def)
  moreover have "log s2 = log s @
        map (RemoveAttribute n) (filter (\<lambda>k. k \<notin> fst ` set nps) (map fst ops)) @
        map (\<lambda>(k, v). SetAttribute n k v) (filter (\<lambda>(k, v). (k, v) \<notin> set ops) nps)"
    unfolding l2 l1 f1 f2 by simp
  ultimately show ?thesis by blast
qed

text \<open>
  Claim C2 on a concrete input. The old element has the attribute \<open>toString\<close> and the new
  one has no attributes. The test \<open>!(key in (newVNode.props || {}))\<close> of line 77 is false,
  because \<open>"toString" in {}\<close> is true, so \<open>removeAttribute\<close> is not called: the live node keeps
  the attribute and nothing is recorded. So it is in an XML document, and in a document of
  type text/html, where the node that \<open>createTree\<close> builds from the old description has the
  attribute under the name \<open>tostring\<close>.
\<close>

theorem inherited_name_attribute_not_removed:
  "diff xml_document (VElem (Some ''div'') [(''toString'', ''x'')] []) (VElem (Some ''div'') [] [])
     (Some 0) \<lparr>heap = [ElementNode None ''div'' [(''toString'', ''x'')] []], log = []\<rparr> =
   (Inr (), \<lparr>heap = [ElementNode None ''div'' [(''toString'', ''x'')] []], log = []\<rparr>) \<and>
   createTree html_document (VElem (Some ''div'') [(''toString'', ''x'')] [])
     \<lparr>heap = [], log = []\<rparr> =
   (Inr 0, \<lparr>heap = [ElementNode None ''div'' [(''tostring'', ''x'')] []],
            log = [SetAttribute 0 ''toString'' ''x'']\<rparr>) \<and>
   diff html_document (VElem (Some ''div'') [(''toString'', ''x'')] []) (VElem (Some ''div'') [] [])
     (Some 0) \<lparr>heap = [ElementNode None ''div'' [(''tostring'', ''x'')] []], log = []\<rparr> =
   (Inr (), \<lparr>heap = [ElementNode None ''div'' [(''tostring'', ''x'')] []], log = []\<rparr>)"
  by (simp add: prim_defs)

text \<open>
  Claim C5 on a concrete input. Going from an element without attributes to one with the
  attribute \<open>toString\<close> sets it; going back does not remove it, for the reason above. After
  the round trip the live node has an attribute that \<open>createTree\<close> of the first description
  does not produce. First in an XML document, then in a document of type text/html.
\<close>

theorem round_trip_keeps_inherited_name_attribute:
  "createTree xml_document (VElem (Some ''div'') [] []) \<lparr>heap = [], log = []\<rparr> =
     (Inr 0, \<lparr>heap = [ElementNode None ''div'' [] []], log = []\<rparr>) \<and>
   diff xml_document (VElem (Some ''div'') [] []) (VElem (Some ''div'') [(''toString'', ''x'')] [])
     (Some 0) \<lparr>heap = [ElementNode None ''div'' [] []], log = []\<rparr> =
     (Inr (), \<lparr>heap = [ElementNode None ''div'' [(''toString'', ''x'')] []],
               log = [SetAttribute 0 ''toString'' ''x'']\<rparr>) \<and>
   diff xml_document (VElem (Some ''div'') [(''toString'', ''x'')] []) (VElem (Some ''div'') [] [])
     (Some 0)
     \<lparr>heap = [ElementNode None ''div'' [(''toString'', ''x'')] []],
      log = [SetAttribute 0 ''toString'' ''x'']\<rparr> =
     (Inr (), \<lparr>heap = [ElementNode None ''div'' [(''toString'', ''x'')] []],
               log = [SetAttribute 0 ''toString'' ''x'']\<rparr>) \<and>
   createTree html_document (VElem (Some ''div'') [] []) \<lparr>heap = [], log = []\<rparr> =
     (Inr 0, \<lparr>heap = [ElementNode None ''div'' [] []], log = []\<rparr>) \<and>
   diff html_document (VElem (Some ''div'') [] []) (VElem (Some ''div'') [(''toString'', ''x'')] [])
     (Some 0) \<lparr>heap = [ElementNode None ''div'' [] []], log = []\<rparr> =
     (Inr (), \<lparr>heap = [ElementNode None ''div'' [(''tostring'', ''x'')] []],
               log = [SetAttribute 0 ''toString'' ''x'']\<rparr>) \<and>
   diff html_document (VElem (Some ''div'') [(''toString'', ''x'')] []) (VElem (Some ''div'') [] [])
     (Some 0)
     \<lparr>heap = [ElementNode None ''div'' [(''tostring'', ''x'')] []],
      log = [SetAttribute 0 ''toString'' ''x'']\<rparr> =
     (Inr (), \<lparr>heap = [ElementNode None ''div'' [(''tostring'', ''x'')] []],
               log = [SetAttribute 0 ''toString'' ''x'']\<rparr>)"
  by (simp add: prim_defs)

end
